theory Spec2Isabelle
  imports Complex_Main
begin

section \<open>Data model\<close>

text \<open>
  Documents of the three Firestore collections, as the handlers of
  \<^verbatim>\<open>src/hooks/useAppActions.js\<close> read and write them.  Document ids are opaque
  strings.  Dates are ISO strings in the source; the handlers only ever compare them through
  \<^verbatim>\<open>new Date(x) - new Date(y)\<close>, so a date is modelled by its millisecond value.
\<close>

type_synonym doc_id = string
type_synonym timestamp = int

datatype sheet_status = Ordered | OnHand | Used

datatype log_status = Scheduled | Completed

text \<open>
  An inventory unit ("sheet") as it sits in the \<^verbatim>\<open>inventory\<close> array: the document
  data together with its id.  Fields that some writers leave out are optional.
\<close>

record sheet_data =
  materialType :: string
  lengthIn :: nat
  width :: nat
  gauge :: string
  density :: "real option"
  thickness :: "real option"
  costPerPound :: real
  supplier :: string
  status :: sheet_status
  job :: string
  createdAt :: timestamp
  arrivalDate :: "timestamp option"
  dateReceived :: "timestamp option"
  usageLogId :: "doc_id option"
  jobNameUsed :: "string option"
  customerUsed :: "string option"
  usedAt :: "timestamp option"

record sheet = sheet_data +
  sheetId :: doc_id

text \<open>The synthetic descriptor a Scheduled record holds in place of a real unit.\<close>

record descriptor =
  dMaterialType :: string
  dLength :: nat
  dWidth :: nat
  dGauge :: string
  dDensity :: real
  dThickness :: real

text \<open>
  An entry of a record's \<^verbatim>\<open>details\<close>: the full unit object (handleUseStock,
  handleFulfillScheduledLog, handleEditOutgoingLog), a synthetic descriptor (scheduled path), or
  the unit without its id and with \<^verbatim>\<open>qty: 1\<close> (UseStockModal.handleSubmit).
\<close>

datatype detail = Snapshot sheet | Synthetic descriptor | Stripped sheet_data

fun detailId :: "detail \<Rightarrow> doc_id option" where
  "detailId (Snapshot s) = Some (sheetId s)"
| "detailId (Synthetic d) = None"
| "detailId (Stripped d) = None"

fun detailMaterialType :: "detail \<Rightarrow> string" where
  "detailMaterialType (Snapshot s) = materialType s"
| "detailMaterialType (Synthetic d) = dMaterialType d"
| "detailMaterialType (Stripped d) = materialType d"

fun detailLength :: "detail \<Rightarrow> nat" where
  "detailLength (Snapshot s) = lengthIn s"
| "detailLength (Synthetic d) = dLength d"
| "detailLength (Stripped d) = lengthIn d"

record usage_log =
  logId :: doc_id
  logJob :: string
  logCustomer :: string
  logCreatedAt :: timestamp
  logUsedAt :: timestamp
  logStatus :: "log_status option"
  details :: "detail list"
  qty :: int
  fulfilledAt :: "timestamp option"

record material =
  materialId :: string
  category :: string
  mDensity :: real
  mThickness :: real

section \<open>FIFO selection\<close>

text \<open>
  Every allocation in the source is the same expression,
  \<^verbatim>\<open>inventory.filter(pred).sort((a, b) => new Date(a.createdAt) - new Date(b.createdAt)).slice(0, qty)\<close>.
  \<^verbatim>\<open>Array.prototype.sort\<close> is a stable comparison sort (ECMAScript 2019): an element
  moves in front of another only when the comparator is negative.  It is modelled by insertion
  from the right, which keeps an element in front of the later elements it ties with.
\<close>

definition byCreatedAt :: "sheet \<Rightarrow> sheet \<Rightarrow> int" where
  "byCreatedAt a b = createdAt a - createdAt b"

fun insertBy :: "('a \<Rightarrow> 'a \<Rightarrow> int) \<Rightarrow> 'a \<Rightarrow> 'a list \<Rightarrow> 'a list" where
  "insertBy cmp x [] = [x]"
| "insertBy cmp x (y # ys) = (if cmp x y \<le> 0 then x # y # ys else y # insertBy cmp x ys)"

fun sortBy :: "('a \<Rightarrow> 'a \<Rightarrow> int) \<Rightarrow> 'a list \<Rightarrow> 'a list" where
  "sortBy cmp [] = []"
| "sortBy cmp (x # xs) = insertBy cmp x (sortBy cmp xs)"

definition slice0 :: "int \<Rightarrow> 'a list \<Rightarrow> 'a list" where
  \<comment> \<open>\<^verbatim>\<open>xs.slice(0, n)\<close> for an integer \<open>n\<close>: a negative end counts from the back.\<close>
  "slice0 n xs = (if 0 \<le> n then take (nat n) xs else take (length xs - nat (- n)) xs)"

definition selectFifo :: "sheet list \<Rightarrow> (sheet \<Rightarrow> bool) \<Rightarrow> sheet list" where
  "selectFifo pool pred = sortBy byCreatedAt (filter pred pool)"

section \<open>The store and its transactions\<close>

text \<open>
  The two collections the handlers write: \<^verbatim>\<open>inventory\<close> and
  \<^verbatim>\<open>usage_logs\<close>, each a list of documents with their ids.
\<close>

record store =
  sheets :: "sheet list"
  logs :: "usage_log list"

text \<open>The three field sets that the handlers pass to \<^verbatim>\<open>update\<close> on a unit.\<close>

datatype sheet_update =
    MarkUsed doc_id string string timestamp
  | ReturnToStock
  | Receive timestamp

fun applySheetUpdate :: "sheet_update \<Rightarrow> sheet \<Rightarrow> sheet" where
  "applySheetUpdate (MarkUsed l j c t) s =
     s\<lparr>status := Used, usageLogId := Some l, jobNameUsed := Some j,
       customerUsed := Some c, usedAt := Some t\<rparr>"
| "applySheetUpdate ReturnToStock s =
     s\<lparr>status := OnHand, usageLogId := None, jobNameUsed := None,
       customerUsed := None, usedAt := None\<rparr>"
| "applySheetUpdate (Receive d) s = s\<lparr>status := OnHand, dateReceived := Some d\<rparr>"

text \<open>The three field sets that the handlers pass to \<^verbatim>\<open>update\<close> on a record.\<close>

datatype log_update =
    Fulfil "detail list" timestamp
  | EditCompleted string string "detail list" int
  | EditScheduled string string timestamp "detail list" int

fun applyLogUpdate :: "log_update \<Rightarrow> usage_log \<Rightarrow> usage_log" where
  "applyLogUpdate (Fulfil ds t) l =
     l\<lparr>logStatus := Some Completed, details := ds, fulfilledAt := Some t\<rparr>"
| "applyLogUpdate (EditCompleted j c ds q) l =
     l\<lparr>logJob := j, logCustomer := c, details := ds, qty := q\<rparr>"
| "applyLogUpdate (EditScheduled j c u ds q) l =
     l\<lparr>logJob := j, logCustomer := c, logUsedAt := u, details := ds, qty := q\<rparr>"

text \<open>
  A write queued on a transaction or a batch.  The body of a transaction only queues writes;
  they reach the store when the body has returned without throwing.
\<close>

datatype write_op =
    SetSheet sheet
  | UpdateSheet doc_id sheet_update
  | DeleteSheet doc_id
  | SetLog usage_log
  | UpdateLog doc_id log_update
  | DeleteLog doc_id

datatype error =
    ValidationError
  | InsufficientStock int string nat nat
  | CannotFulfill int string nat nat
  | CannotRemove int nat
  | EditShortfall string nat int nat
  | ConcurrencyError string nat
  | RangeError
  | NotFound

definition hasSheet :: "doc_id \<Rightarrow> sheet list \<Rightarrow> bool" where
  "hasSheet i xs = (i \<in> set (map sheetId xs))"

definition hasLog :: "doc_id \<Rightarrow> usage_log list \<Rightarrow> bool" where
  "hasLog i xs = (i \<in> set (map logId xs))"

text \<open>
  Firestore semantics of the three kinds of write: \<^verbatim>\<open>set\<close> creates or replaces the
  document, \<^verbatim>\<open>update\<close> fails when the document does not exist, \<^verbatim>\<open>delete\<close>
  always succeeds.
\<close>

fun applyToSheets :: "write_op \<Rightarrow> sheet list \<Rightarrow> sheet list option" where
  "applyToSheets (SetSheet s) xs =
     Some (if hasSheet (sheetId s) xs
           then map (\<lambda>x. if sheetId x = sheetId s then s else x) xs
           else xs @ [s])"
| "applyToSheets (UpdateSheet i u) xs =
     (if hasSheet i xs
      then Some (map (\<lambda>x. if sheetId x = i then applySheetUpdate u x else x) xs)
      else None)"
| "applyToSheets (DeleteSheet i) xs = Some (filter (\<lambda>x. sheetId x \<noteq> i) xs)"
| "applyToSheets (SetLog l) xs = Some xs"
| "applyToSheets (UpdateLog i u) xs = Some xs"
| "applyToSheets (DeleteLog i) xs = Some xs"

fun applyToLogs :: "write_op \<Rightarrow> usage_log list \<Rightarrow> usage_log list option" where
  "applyToLogs (SetLog l) xs =
     Some (if hasLog (logId l) xs
           then map (\<lambda>x. if logId x = logId l then l else x) xs
           else xs @ [l])"
| "applyToLogs (UpdateLog i u) xs =
     (if hasLog i xs
      then Some (map (\<lambda>x. if logId x = i then applyLogUpdate u x else x) xs)
      else None)"
| "applyToLogs (DeleteLog i) xs = Some (filter (\<lambda>x. logId x \<noteq> i) xs)"
| "applyToLogs (SetSheet s) xs = Some xs"
| "applyToLogs (UpdateSheet i u) xs = Some xs"
| "applyToLogs (DeleteSheet i) xs = Some xs"

fun commitSheets :: "write_op list \<Rightarrow> sheet list \<Rightarrow> sheet list option" where
  "commitSheets [] xs = Some xs"
| "commitSheets (w # ws) xs =
     (case applyToSheets w xs of None \<Rightarrow> None | Some ys \<Rightarrow> commitSheets ws ys)"

fun commitLogs :: "write_op list \<Rightarrow> usage_log list \<Rightarrow> usage_log list option" where
  "commitLogs [] xs = Some xs"
| "commitLogs (w # ws) xs =
     (case applyToLogs w xs of None \<Rightarrow> None | Some ys \<Rightarrow> commitLogs ws ys)"

text \<open>
  The writes of one commit are applied in order, each to its own collection, and all or none:
  one failed \<^verbatim>\<open>update\<close> fails the commit.
\<close>

definition commit :: "write_op list \<Rightarrow> store \<Rightarrow> store option" where
  "commit ws s =
     (case commitSheets ws (sheets s) of
        None \<Rightarrow> None
      | Some xs \<Rightarrow>
          (case commitLogs ws (logs s) of
             None \<Rightarrow> None
           | Some ls \<Rightarrow> Some \<lparr>sheets = xs, logs = ls\<rparr>))"

text \<open>
  \<^verbatim>\<open>runTransaction(db, body)\<close>: a body that throws leaves the store as it was and the
  error reaches the caller; otherwise the queued writes are committed.  The first component
  of the result is the error, if any; the second the store afterwards.
\<close>

definition runTransaction :: "error + write_op list \<Rightarrow> store \<Rightarrow> error option \<times> store" where
  "runTransaction body s =
     (case body of
        Inl e \<Rightarrow> (Some e, s)
      | Inr ws \<Rightarrow>
          (case commit ws s of
             None \<Rightarrow> (Some NotFound, s)
           | Some s' \<Rightarrow> (None, s')))"

section \<open>What the handlers close over\<close>

text \<open>
  The values the hook receives in \<^verbatim>\<open>params\<close> and reads in the handlers
  (\<^verbatim>\<open>materials\<close>, \<^verbatim>\<open>inventory\<close>, \<^verbatim>\<open>inventorySummary\<close>,
  \<^verbatim>\<open>categoriesToDelete\<close>), its two imports (\<^verbatim>\<open>STANDARD_LENGTHS\<close> of
  \<^verbatim>\<open>constants/materials\<close>, \<^verbatim>\<open>getGaugeFromMaterial\<close> of
  \<^verbatim>\<open>utils/dataProcessing\<close>), the clock
  (\<^verbatim>\<open>new Date()\<close>) and the ids that \<^verbatim>\<open>doc(collectionRef)\<close> generates, in the
  order of the calls.  \<^verbatim>\<open>inventory\<close> is the client's copy of the inventory
  collection; the handlers never read the collection itself.
\<close>

record env =
  materials :: "(string \<times> material) list"
  inventory :: "sheet list"
  inventorySummary :: "string \<Rightarrow> nat \<Rightarrow> int option"
  categoriesToDelete :: "string list"
  standardLengths :: "nat list"
  getGaugeFromMaterial :: "string \<Rightarrow> string"
  now :: timestamp
  autoId :: "nat \<Rightarrow> doc_id"

text \<open>
  A form item: \<^verbatim>\<open>itemQty it len\<close> is \<^verbatim>\<open>parseInt(item[`qty${len}`] || 0)\<close>.
  A value that parses to NaN passes none of the comparisons \<^verbatim>\<open>qty > 0\<close>,
  \<^verbatim>\<open>length < qty\<close>, \<^verbatim>\<open>i < qty\<close> and slices to nothing, as 0 does, and is read as 0.
\<close>

record item =
  itemMaterialType :: string
  itemCostPerPound :: real
  itemQty :: "nat \<Rightarrow> int"

record job_form =
  customer :: string
  jobName :: string
  items :: "item list"
  jobStatus :: sheet_status
  jobSupplier :: string
  jobArrivalDate :: "timestamp option"

text \<open>
  The two dates that reach the handlers as the text of a date field and are parsed by
  \<^verbatim>\<open>new Date(`${date}T00:00:00`).toISOString()\<close>: \<open>Some t\<close> for a date, \<open>None\<close>
  for a blank or unparsable text, on which \<^verbatim>\<open>toISOString\<close> throws a RangeError.
\<close>

record use_options =
  isScheduled :: bool
  scheduledDate :: "timestamp option"

record log_form =
  formJobName :: string
  formCustomer :: string
  formItems :: "item list"
  formDate :: "timestamp option"

text \<open>
  An order group as \<^verbatim>\<open>IncomingLogDisplay\<close> builds it: it always carries
  \<^verbatim>\<open>dateOrdered\<close>; \<^verbatim>\<open>date\<close> is a field of groups built elsewhere.
\<close>

record order_group =
  groupDate :: "timestamp option"
  dateOrdered :: timestamp
  groupDetails :: "sheet list"

definition isSpace :: "char \<Rightarrow> bool" where
  "isSpace c = (c \<in> {CHR '' '', CHR 0x09, CHR 0x0A, CHR 0x0B, CHR 0x0C, CHR 0x0D})"

definition trim :: "string \<Rightarrow> string" where
  "trim s = rev (dropWhile isSpace (rev (dropWhile isSpace s)))"

definition jobLabel :: "string \<Rightarrow> string" where
  \<comment> \<open>\<^verbatim>\<open>jobName.trim() || 'N/A'\<close>\<close>
  "jobLabel n = (if trim n = [] then ''N/A'' else trim n)"

definition utcDay :: "timestamp \<Rightarrow> timestamp" where
  \<comment> \<open>\<^verbatim>\<open>toISOString().split('T')[0]\<close>: the date without the time of day\<close>
  "utcDay t = t - t mod 86400000"

definition orZero :: "real option \<Rightarrow> real" where
  "orZero v = (case v of None \<Rightarrow> 0 | Some x \<Rightarrow> x)"

definition materialInfo :: "env \<Rightarrow> string \<Rightarrow> material option" where
  "materialInfo E mt = map_of (materials E) mt"

definition matches :: "string \<Rightarrow> nat \<Rightarrow> sheet \<Rightarrow> bool" where
  "matches mt len i = (materialType i = mt \<and> lengthIn i = len \<and> status i = OnHand)"

text \<open>
  The requirements of a list of items, in the order of the two nested loops: one for every
  item and standard length with a positive quantity.
\<close>

definition requirements :: "env \<Rightarrow> item list \<Rightarrow> (string \<times> nat \<times> int) list" where
  "requirements E its =
     concat (map (\<lambda>it. concat (map (\<lambda>len.
        if itemQty it len > 0 then [(itemMaterialType it, len, itemQty it len)] else [])
        (standardLengths E))) its)"

text \<open>Running one step per requirement, stopping at the first that throws.\<close>

fun collect :: "('r \<Rightarrow> error + 'a list) \<Rightarrow> 'r list \<Rightarrow> error + 'a list" where
  "collect f [] = Inr []"
| "collect f (r # rs) =
     (case f r of
        Inl e \<Rightarrow> Inl e
      | Inr xs \<Rightarrow> (case collect f rs of Inl e \<Rightarrow> Inl e | Inr ys \<Rightarrow> Inr (xs @ ys)))"

section \<open>handleUseStock\<close>

definition syntheticFor :: "env \<Rightarrow> string \<Rightarrow> nat \<Rightarrow> detail" where
  "syntheticFor E mt len = Synthetic
     \<lparr>dMaterialType = mt, dLength = len, dWidth = 48,
      dGauge = getGaugeFromMaterial E mt,
      dDensity = orZero (map_option mDensity (materialInfo E mt)),
      dThickness = orZero (map_option mThickness (materialInfo E mt))\<rparr>"

definition scheduledDetails :: "env \<Rightarrow> item list \<Rightarrow> detail list" where
  "scheduledDetails E its =
     concat (map (\<lambda>(mt, len, q). replicate (nat q) (syntheticFor E mt len))
       (requirements E its))"

definition totalItems :: "env \<Rightarrow> item list \<Rightarrow> int" where
  "totalItems E its = sum_list (map (\<lambda>(mt, len, q). q) (requirements E its))"

definition scheduledEntry :: "env \<Rightarrow> timestamp \<Rightarrow> doc_id \<Rightarrow> job_form \<Rightarrow> usage_log" where
  "scheduledEntry E d l j =
     \<lparr>logId = l, logJob = jobLabel (jobName j), logCustomer = customer j,
      logCreatedAt = now E, logUsedAt = d,
      logStatus = Some Scheduled, details = scheduledDetails E (items j),
      qty = - totalItems E (items j), fulfilledAt = None\<rparr>"

definition useRequirement :: "env \<Rightarrow> string \<times> nat \<times> int \<Rightarrow> error + sheet list" where
  "useRequirement E r =
     (case r of (mt, len, q) \<Rightarrow>
        let matchingSheets = selectFifo (inventory E) (matches mt len) in
        if int (length matchingSheets) < q
        then Inl (InsufficientStock q mt len (length matchingSheets))
        else Inr (slice0 q matchingSheets))"

definition completedEntry :: "env \<Rightarrow> doc_id \<Rightarrow> job_form \<Rightarrow> sheet list \<Rightarrow> usage_log" where
  "completedEntry E l j used =
     \<lparr>logId = l, logJob = jobLabel (jobName j), logCustomer = customer j,
      logCreatedAt = now E, logUsedAt = now E,
      logStatus = Some Completed, details = map Snapshot used,
      qty = - int (length used), fulfilledAt = None\<rparr>"

definition markUsedFor :: "env \<Rightarrow> doc_id \<Rightarrow> job_form \<Rightarrow> sheet \<Rightarrow> write_op" where
  "markUsedFor E l j sh =
     UpdateSheet (sheetId sh) (MarkUsed l (jobLabel (jobName j)) (customer j) (now E))"

text \<open>
  The loop over the jobs; \<open>n\<close> counts the ids generated so far.  The scheduled branch asks
  for a record id only when it writes the record, the immediate branch at the start of every
  job.  Building the scheduled record parses the scheduled date, and throws on a blank or
  unparsable one.
\<close>

fun useStockJobs :: "env \<Rightarrow> use_options \<Rightarrow> nat \<Rightarrow> job_form list \<Rightarrow> error + write_op list" where
  "useStockJobs E opts n [] = Inr []"
| "useStockJobs E opts n (j # js) =
     (if isScheduled opts then
        (if scheduledDetails E (items j) \<noteq> [] then
           (case scheduledDate opts of
              None \<Rightarrow> Inl RangeError
            | Some d \<Rightarrow>
                (case useStockJobs E opts (Suc n) js of
                   Inl e \<Rightarrow> Inl e
                 | Inr ws \<Rightarrow> Inr (SetLog (scheduledEntry E d (autoId E n) j) # ws)))
         else useStockJobs E opts n js)
      else
        (case collect (useRequirement E) (requirements E (items j)) of
           Inl e \<Rightarrow> Inl e
         | Inr used \<Rightarrow>
             (case useStockJobs E opts (Suc n) js of
                Inl e \<Rightarrow> Inl e
              | Inr ws \<Rightarrow>
                  Inr (map (markUsedFor E (autoId E n) j) used
                       @ (if used \<noteq> [] then [SetLog (completedEntry E (autoId E n) j used)]
                          else [])
                       @ ws))))"

definition handleUseStock ::
  "env \<Rightarrow> job_form list \<Rightarrow> use_options \<Rightarrow> store \<Rightarrow> error option \<times> store" where
  "handleUseStock E jobs opts s = runTransaction (useStockJobs E opts 0 jobs) s"

section \<open>handleFulfillScheduledLog\<close>

text \<open>
  The tallies \<^verbatim>\<open>itemsNeeded\<close> and \<^verbatim>\<open>netChange\<close> are objects keyed by
  \<^verbatim>\<open>`${materialType}|${length}`\<close> and read back by \<^verbatim>\<open>key.split('|')\<close>; their
  keys are enumerated in the order of first insertion.  The key is modelled by the pair it is
  split into (material names hold no \<^verbatim>\<open>|\<close>), the object by an association list in
  insertion order.  \<^verbatim>\<open>acc[key] = (acc[key] || 0) + d\<close> is \<open>adjust key d acc\<close>.
\<close>

fun adjust :: "'k \<Rightarrow> int \<Rightarrow> ('k \<times> int) list \<Rightarrow> ('k \<times> int) list" where
  "adjust k d [] = [(k, d)]"
| "adjust k d ((k', v) # m) = (if k' = k then (k', v + d) # m else (k', v) # adjust k d m)"

definition detailKey :: "detail \<Rightarrow> string \<times> nat" where
  "detailKey d = (detailMaterialType d, detailLength d)"

definition itemsNeeded :: "detail list \<Rightarrow> ((string \<times> nat) \<times> int) list" where
  "itemsNeeded ds = foldl (\<lambda>acc d. adjust (detailKey d) 1 acc) [] ds"

definition fulfilRequirement :: "env \<Rightarrow> (string \<times> nat) \<times> int \<Rightarrow> error + sheet list" where
  "fulfilRequirement E r =
     (case r of ((mt, len), q) \<Rightarrow>
        let availableSheets = selectFifo (inventory E) (matches mt len) in
        if int (length availableSheets) < q
        then Inl (CannotFulfill q mt len (length availableSheets))
        else Inr (slice0 q availableSheets))"

definition fulfilBody :: "env \<Rightarrow> usage_log \<Rightarrow> error + write_op list" where
  "fulfilBody E l =
     (case collect (fulfilRequirement E) (itemsNeeded (details l)) of
        Inl e \<Rightarrow> Inl e
      | Inr inventoryToUpdate \<Rightarrow>
          Inr (map (\<lambda>sh. UpdateSheet (sheetId sh)
                      (MarkUsed (logId l) (logJob l) (logCustomer l) (now E)))
                 inventoryToUpdate
               @ [UpdateLog (logId l) (Fulfil (map Snapshot inventoryToUpdate) (now E))]))"

definition handleFulfillScheduledLog :: "env \<Rightarrow> usage_log \<Rightarrow> store \<Rightarrow> error option \<times> store" where
  "handleFulfillScheduledLog E l s = runTransaction (fulfilBody E l) s"

section \<open>handleAddOrEditOrder\<close>

definition orderCreatedAt :: "env \<Rightarrow> order_group option \<Rightarrow> timestamp" where
  \<comment> \<open>\<^verbatim>\<open>isEditing ? (group.date || group.dateOrdered) : new Date().toISOString()\<close>\<close>
  "orderCreatedAt E og =
     (case og of
        None \<Rightarrow> now E
      | Some g \<Rightarrow> (case groupDate g of Some d \<Rightarrow> d | None \<Rightarrow> dateOrdered g))"

definition orderSheet ::
  "env \<Rightarrow> order_group option \<Rightarrow> job_form \<Rightarrow> item \<Rightarrow> nat \<Rightarrow> doc_id \<Rightarrow> sheet" where
  "orderSheet E og j it len i =
     \<lparr>materialType = itemMaterialType it, lengthIn = len, width = 48,
      gauge = getGaugeFromMaterial E (itemMaterialType it),
      density = None, thickness = None,
      costPerPound = itemCostPerPound it, supplier = jobSupplier j,
      status = jobStatus j, job = jobLabel (jobName j),
      createdAt = orderCreatedAt E og,
      arrivalDate = (if jobStatus j = Ordered then jobArrivalDate j else None),
      dateReceived = None, usageLogId = None, jobNameUsed = None,
      customerUsed = None, usedAt = None, sheetId = i\<rparr>"

text \<open>One entry per unit to create, in the order of the four nested loops.\<close>

definition orderUnits :: "env \<Rightarrow> job_form list \<Rightarrow> (job_form \<times> item \<times> nat) list" where
  "orderUnits E jobs =
     concat (map (\<lambda>j. concat (map (\<lambda>it. concat (map (\<lambda>len.
        replicate (nat (itemQty it len)) (j, it, len))
        (standardLengths E))) (items j))) jobs)"

definition createdSheets :: "env \<Rightarrow> job_form list \<Rightarrow> order_group option \<Rightarrow> sheet list" where
  "createdSheets E jobs og =
     map (\<lambda>(k, (j, it, len)). orderSheet E og j it len (autoId E k))
       (enumerate 0 (orderUnits E jobs))"

definition addOrEditOrderBody ::
  "env \<Rightarrow> job_form list \<Rightarrow> order_group option \<Rightarrow> error + write_op list" where
  "addOrEditOrderBody E jobs og =
     Inr ((case og of
             None \<Rightarrow> []
           | Some g \<Rightarrow> map (\<lambda>d. DeleteSheet (sheetId d)) (groupDetails g))
          @ map SetSheet (createdSheets E jobs og))"

definition handleAddOrEditOrder ::
  "env \<Rightarrow> job_form list \<Rightarrow> order_group option \<Rightarrow> store \<Rightarrow> error option \<times> store" where
  "handleAddOrEditOrder E jobs og s = runTransaction (addOrEditOrderBody E jobs og) s"

section \<open>handleDeleteInventoryGroup, handleDeleteLog, handleReceiveOrder\<close>

text \<open>A write batch commits like a transaction whose body queues its writes and returns.\<close>

definition commitBatch :: "write_op list \<Rightarrow> store \<Rightarrow> error option \<times> store" where
  "commitBatch ws s = runTransaction (Inr ws) s"

definition handleDeleteInventoryGroup :: "order_group option \<Rightarrow> store \<Rightarrow> error option \<times> store" where
  "handleDeleteInventoryGroup og s =
     (case og of
        None \<Rightarrow> (None, s)
      | Some g \<Rightarrow>
          if groupDetails g = [] then (None, s)
          else commitBatch (map (\<lambda>d. DeleteSheet (sheetId d)) (groupDetails g)) s)"

definition handleDeleteLog :: "doc_id \<Rightarrow> store \<Rightarrow> error option \<times> store" where
  "handleDeleteLog i s = commitBatch [DeleteLog i] s"

definition handleReceiveOrder :: "env \<Rightarrow> order_group \<Rightarrow> store \<Rightarrow> error option \<times> store" where
  "handleReceiveOrder E g s =
     commitBatch
       (map (\<lambda>d. UpdateSheet (sheetId d) (Receive (utcDay (now E))))
          (filter (\<lambda>d. sheetId d \<noteq> []) (groupDetails g))) s"

section \<open>handleStockEdit\<close>

definition manualSheet :: "env \<Rightarrow> string \<Rightarrow> nat \<Rightarrow> doc_id \<Rightarrow> sheet" where
  "manualSheet E mt len i =
     \<lparr>materialType = mt, lengthIn = len, width = 48,
      gauge = getGaugeFromMaterial E mt,
      density = Some (orZero (map_option mDensity (materialInfo E mt))),
      thickness = Some (orZero (map_option mThickness (materialInfo E mt))),
      costPerPound = 0, supplier = ''Manual Edit'',
      status = OnHand, job = ''MODIFICATION: ADD'',
      createdAt = now E, arrivalDate = None,
      dateReceived = Some (utcDay (now E)), usageLogId = None, jobNameUsed = None,
      customerUsed = None, usedAt = None, sheetId = i\<rparr>"

definition stockEditBody :: "env \<Rightarrow> string \<Rightarrow> nat \<Rightarrow> int \<Rightarrow> error + write_op list" where
  "stockEditBody E mt len diff =
     (if diff > 0 then
        Inr (map (\<lambda>k. SetSheet (manualSheet E mt len (autoId E k))) [0..<nat diff])
      else
        let sheetsToRemove = \<bar>diff\<bar>;
            availableSheets = selectFifo (inventory E) (matches mt len) in
        if int (length availableSheets) < sheetsToRemove
        then Inl (CannotRemove sheetsToRemove (length availableSheets))
        else Inr (map (\<lambda>sh. DeleteSheet (sheetId sh)) (slice0 sheetsToRemove availableSheets)))"

definition currentQuantity :: "env \<Rightarrow> string \<Rightarrow> nat \<Rightarrow> int" where
  \<comment> \<open>\<^verbatim>\<open>inventorySummary[materialType]?.[length] || 0\<close>\<close>
  "currentQuantity E mt len = (case inventorySummary E mt len of None \<Rightarrow> 0 | Some c \<Rightarrow> c)"

definition handleStockEdit ::
  "env \<Rightarrow> string \<Rightarrow> nat \<Rightarrow> int \<Rightarrow> store \<Rightarrow> error option \<times> store" where
  "handleStockEdit E mt len newQuantity s =
     (let diff = newQuantity - currentQuantity E mt len in
      if diff = 0 then (None, s)
      else runTransaction (stockEditBody E mt len diff) s)"

section \<open>handleEditOutgoingLog\<close>

definition netChange :: "env \<Rightarrow> detail list \<Rightarrow> item list \<Rightarrow> ((string \<times> nat) \<times> int) list" where
  "netChange E ds its =
     foldl (\<lambda>acc r. case r of (mt, len, q) \<Rightarrow> adjust (mt, len) (- q) acc)
       (foldl (\<lambda>acc d. adjust (detailKey d) 1 acc) [] ds)
       (requirements E its)"

fun preCheck :: "env \<Rightarrow> ((string \<times> nat) \<times> int) list \<Rightarrow> error option" where
  "preCheck E [] = None"
| "preCheck E (((mt, len), v) # m) =
     (if v < 0 \<and> int (length (filter (matches mt len) (inventory E))) < \<bar>v\<bar>
      then Some (EditShortfall mt len \<bar>v\<bar> (length (filter (matches mt len) (inventory E))))
      else preCheck E m)"

definition originalItemIds :: "usage_log \<Rightarrow> doc_id option list" where
  "originalItemIds l = map detailId (details l)"

definition itemsToReturn :: "env \<Rightarrow> usage_log \<Rightarrow> sheet list" where
  "itemsToReturn E l = filter (\<lambda>i. Some (sheetId i) \<in> set (originalItemIds l)) (inventory E)"

definition editRequirement :: "env \<Rightarrow> usage_log \<Rightarrow> string \<times> nat \<times> int \<Rightarrow> error + sheet list" where
  "editRequirement E l r =
     (case r of (mt, len, q) \<Rightarrow>
        let matchingSheets = selectFifo (inventory E)
              (\<lambda>i. matches mt len i \<and> Some (sheetId i) \<notin> set (originalItemIds l));
            sheetsToUse = slice0 q matchingSheets in
        if int (length sheetsToUse) < q then Inl (ConcurrencyError mt len)
        else Inr sheetsToUse)"

definition editCompletedBody :: "env \<Rightarrow> usage_log \<Rightarrow> log_form \<Rightarrow> error + write_op list" where
  "editCompletedBody E l f =
     (case preCheck E (netChange E (details l) (formItems f)) of
        Some e \<Rightarrow> Inl e
      | None \<Rightarrow>
          (case collect (editRequirement E l) (requirements E (formItems f)) of
             Inl e \<Rightarrow> Inl e
           | Inr used \<Rightarrow>
               Inr (map (\<lambda>i. UpdateSheet (sheetId i) ReturnToStock) (itemsToReturn E l)
                    @ map (\<lambda>sh. UpdateSheet (sheetId sh)
                             (MarkUsed (logId l) (formJobName f) (formCustomer f) (now E)))
                        used
                    @ [UpdateLog (logId l)
                         (EditCompleted (formJobName f) (formCustomer f)
                            (map Snapshot used) (- int (length used)))])))"

definition editScheduledWrite :: "env \<Rightarrow> usage_log \<Rightarrow> log_form \<Rightarrow> timestamp \<Rightarrow> write_op" where
  "editScheduledWrite E l f d =
     UpdateLog (logId l)
       (EditScheduled (jobLabel (formJobName f)) (formCustomer f) d
          (scheduledDetails E (formItems f)) (- totalItems E (formItems f)))"

definition handleEditOutgoingLog ::
  "env \<Rightarrow> usage_log \<Rightarrow> log_form \<Rightarrow> store \<Rightarrow> error option \<times> store" where
  "handleEditOutgoingLog E l f s =
     (if logStatus l = Some Scheduled
      then (case formDate f of
              None \<Rightarrow> (Some RangeError, s)
            | Some d \<Rightarrow> commitBatch [editScheduledWrite E l f d] s)
      else runTransaction (editCompletedBody E l f) s)"

section \<open>UseStockModal.handleSubmit\<close>

text \<open>
  The form behind the "use" modal runs its own transaction over the same
  \<^verbatim>\<open>inventory\<close> array instead of calling \<^verbatim>\<open>handleUseStock\<close>.
\<close>

definition modalRequirement :: "env \<Rightarrow> string \<times> nat \<times> int \<Rightarrow> error + sheet list" where
  "modalRequirement E r =
     (case r of (mt, len, q) \<Rightarrow>
        let matchingSheets = selectFifo (inventory E)
              (\<lambda>i. materialType i = mt \<and> lengthIn i = len \<and> status i \<noteq> Ordered) in
        if int (length matchingSheets) < q
        then Inl (InsufficientStock q mt len (length matchingSheets))
        else Inr (slice0 q matchingSheets))"

definition modalEntry :: "env \<Rightarrow> doc_id \<Rightarrow> job_form \<Rightarrow> sheet list \<Rightarrow> usage_log" where
  "modalEntry E l j used =
     \<lparr>logId = l, logJob = jobName j, logCustomer = customer j,
      logCreatedAt = now E, logUsedAt = now E,
      logStatus = None, details = map (\<lambda>sh. Stripped (sheet_data.truncate sh)) used,
      qty = - int (length used), fulfilledAt = None\<rparr>"

fun modalJobs :: "env \<Rightarrow> nat \<Rightarrow> job_form list \<Rightarrow> error + write_op list" where
  "modalJobs E n [] = Inr []"
| "modalJobs E n (j # js) =
     (case collect (modalRequirement E) (requirements E (items j)) of
        Inl e \<Rightarrow> Inl e
      | Inr used \<Rightarrow>
          (case modalJobs E (if used \<noteq> [] then Suc n else n) js of
             Inl e \<Rightarrow> Inl e
           | Inr ws \<Rightarrow>
               Inr (map (\<lambda>sh. DeleteSheet (sheetId sh)) used
                    @ (if used \<noteq> [] then [SetLog (modalEntry E (autoId E n) j used)] else [])
                    @ ws)))"

definition handleSubmit :: "env \<Rightarrow> job_form list \<Rightarrow> store \<Rightarrow> error option \<times> store" where
  "handleSubmit E jobs s =
     (if list_ex (\<lambda>j. trim (customer j) = []) jobs then (Some ValidationError, s)
      else runTransaction (modalJobs E 0 jobs) s)"

section \<open>handleConfirmDeleteCategories\<close>

datatype doc_ref = MaterialRef string | InventoryRef doc_id

definition replaceSlashes :: "string \<Rightarrow> string" where
  "replaceSlashes n = map (\<lambda>c. if c = CHR ''/'' then CHR ''-'' else c) n"

definition materialIdsToDelete :: "env \<Rightarrow> string list" where
  "materialIdsToDelete E =
     map materialId
       (filter (\<lambda>m. category m \<in> set (categoriesToDelete E)) (map snd (materials E)))"

definition inventoryToDelete :: "env \<Rightarrow> sheet list" where
  "inventoryToDelete E =
     filter (\<lambda>i. materialType i \<in> set (materialIdsToDelete E)) (inventory E)"

definition allDocRefsToDelete :: "env \<Rightarrow> doc_ref list" where
  "allDocRefsToDelete E =
     map (\<lambda>i. MaterialRef (replaceSlashes i)) (materialIdsToDelete E)
     @ map (\<lambda>i. InventoryRef (sheetId i)) (inventoryToDelete E)"

definition MAX_BATCH_SIZE :: nat where
  "MAX_BATCH_SIZE = 500"

text \<open>
  The loop \<^verbatim>\<open>for (i = 0; i < refs.length; i += MAX_BATCH_SIZE)\<close>; each chunk
  \<^verbatim>\<open>refs.slice(i, i + MAX_BATCH_SIZE)\<close> is one batch of deletions, committed before the
  next is built.
\<close>

function chunksFrom :: "nat \<Rightarrow> 'a list \<Rightarrow> 'a list list" where
  "chunksFrom i refs =
     (if i < length refs
      then take MAX_BATCH_SIZE (drop i refs) # chunksFrom (i + MAX_BATCH_SIZE) refs
      else [])"
  by pat_completeness auto
termination
  by (relation "measure (\<lambda>(i, refs). length refs - i)") (auto simp: MAX_BATCH_SIZE_def)

definition handleConfirmDeleteCategories :: "env \<Rightarrow> doc_ref list list" where
  \<comment> \<open>the batches committed, in order\<close>
  "handleConfirmDeleteCategories E = chunksFrom 0 (allDocRefsToDelete E)"

declare chunksFrom.simps [simp del]

section \<open>The link between units and records\<close>

text \<open>
  The property of C5 for one unit \<open>u\<close> of a store: \<open>linked s u\<close> says that \<open>u\<close> is
  Used and appears, by its id, in the details of a record of the store whose id is the unit's
  usageLogId.
\<close>

definition linked :: "store \<Rightarrow> sheet \<Rightarrow> bool" where
  "linked s u =
     (case usageLogId u of
        None \<Rightarrow> False
      | Some l \<Rightarrow>
          status u = Used
          \<and> list_ex (\<lambda>r. logId r = l \<and> Some (sheetId u) \<in> set (map detailId (details r)))
               (logs s))"

definition unitsLinked :: "store \<Rightarrow> bool" where
  "unitsLinked s = list_all (\<lambda>u. (usageLogId u \<noteq> None) = linked s u) (sheets s)"

text \<open>
  The invariant the operations keep: record ids are unique, and a unit that carries a
  usageLogId is Used and appears in the details of the record with that id, which is not a
  Scheduled one.
\<close>

definition unitOk :: "usage_log list \<Rightarrow> sheet \<Rightarrow> bool" where
  "unitOk ls u =
     (case usageLogId u of
        None \<Rightarrow> True
      | Some l \<Rightarrow>
          status u = Used
          \<and> list_ex (\<lambda>r. logId r = l \<and> logStatus r \<noteq> Some Scheduled
                        \<and> Some (sheetId u) \<in> set (map detailId (details r))) ls)"

definition ledgerInvariant :: "store \<Rightarrow> bool" where
  "ledgerInvariant s = (distinct (map logId (logs s)) \<and> list_all (unitOk (logs s)) (sheets s))"

text \<open>The operations of the engine on the store, and the handler behind each.\<close>

datatype operation =
    UseStock "job_form list" use_options
  | SubmitUseForm "job_form list"
  | FulfillScheduledLog usage_log
  | EditOutgoingLog usage_log log_form
  | AddOrEditOrder "job_form list" "order_group option"
  | ReceiveOrder order_group
  | DeleteInventoryGroup "order_group option"
  | ManualStockAdjust string nat int
  | DeleteRecord doc_id

fun perform :: "env \<Rightarrow> operation \<Rightarrow> store \<Rightarrow> error option \<times> store" where
  "perform E (UseStock jobs opts) s = handleUseStock E jobs opts s"
| "perform E (SubmitUseForm jobs) s = handleSubmit E jobs s"
| "perform E (FulfillScheduledLog l) s = handleFulfillScheduledLog E l s"
| "perform E (EditOutgoingLog l f) s = handleEditOutgoingLog E l f s"
| "perform E (AddOrEditOrder jobs og) s = handleAddOrEditOrder E jobs og s"
| "perform E (ReceiveOrder g) s = handleReceiveOrder E g s"
| "perform E (DeleteInventoryGroup og) s = handleDeleteInventoryGroup og s"
| "perform E (ManualStockAdjust mt len n) s = handleStockEdit E mt len n s"
| "perform E (DeleteRecord i) s = handleDeleteLog i s"

text \<open>
  What an operation assumes of its arguments and of the values the hook closes over: the
  generated record ids are new; the record handed to fulfilment or to an edit is the stored
  one, and is Scheduled when it is fulfilled; the inventory array knows every stored unit when
  a record is edited; the units of a received group are still Ordered; a deleted record is
  referenced by no unit.
\<close>

definition freshLogIds :: "env \<Rightarrow> store \<Rightarrow> bool" where
  "freshLogIds E s = (inj (autoId E) \<and> range (autoId E) \<inter> logId ` set (logs s) = {})"

fun applicable :: "env \<Rightarrow> operation \<Rightarrow> store \<Rightarrow> bool" where
  "applicable E (UseStock jobs opts) s = freshLogIds E s"
| "applicable E (SubmitUseForm jobs) s = freshLogIds E s"
| "applicable E (FulfillScheduledLog l) s = (l \<in> set (logs s) \<and> logStatus l = Some Scheduled)"
| "applicable E (EditOutgoingLog l f) s =
     (l \<in> set (logs s) \<and> sheetId ` set (sheets s) \<subseteq> sheetId ` set (inventory E))"
| "applicable E (AddOrEditOrder jobs og) s = True"
| "applicable E (ReceiveOrder g) s =
     list_all (\<lambda>u. sheetId u \<notin> sheetId ` set (groupDetails g) \<or> status u = Ordered) (sheets s)"
| "applicable E (DeleteInventoryGroup og) s = True"
| "applicable E (ManualStockAdjust mt len n) s = True"
| "applicable E (DeleteRecord i) s = list_all (\<lambda>u. usageLogId u \<noteq> Some i) (sheets s)"

text \<open>The records a list of writes sets, and the kinds of write it holds.\<close>

fun setLogs :: "write_op list \<Rightarrow> usage_log list" where
  "setLogs [] = []"
| "setLogs (SetLog l # ws) = l # setLogs ws"
| "setLogs (w # ws) = setLogs ws"

fun sheetWrite :: "write_op \<Rightarrow> bool" where
  "sheetWrite (SetSheet sh) = True"
| "sheetWrite (UpdateSheet i u) = True"
| "sheetWrite (DeleteSheet i) = True"
| "sheetWrite w = False"

fun logSetOrSheetWrite :: "write_op \<Rightarrow> bool" where
  "logSetOrSheetWrite (UpdateLog i u) = False"
| "logSetOrSheetWrite (DeleteLog i) = False"
| "logSetOrSheetWrite w = True"

section \<open>Example data\<close>

definition exampleSheet :: "doc_id \<Rightarrow> string \<Rightarrow> nat \<Rightarrow> timestamp \<Rightarrow> sheet_status \<Rightarrow> sheet" where
  "exampleSheet i mt len t st =
     \<lparr>materialType = mt, lengthIn = len, width = 48, gauge = ''16'',
      density = None, thickness = None, costPerPound = 0, supplier = ''Acme'',
      status = st, job = ''N/A'', createdAt = t, arrivalDate = None,
      dateReceived = None, usageLogId = None, jobNameUsed = None,
      customerUsed = None, usedAt = None, sheetId = i\<rparr>"

definition exampleEnv :: "sheet list \<Rightarrow> env" where
  "exampleEnv pool =
     \<lparr>materials = [(''A16GA'', \<lparr>materialId = ''A16GA'', category = ''Aluminum'',
                                mDensity = 1, mThickness = 1\<rparr>)],
      inventory = pool, inventorySummary = (\<lambda>mt len. None),
      categoriesToDelete = [''Aluminum''], standardLengths = [96, 120, 144],
      getGaugeFromMaterial = (\<lambda>mt. ''16''), now = 1000,
      autoId = (\<lambda>n. replicate (Suc n) CHR ''n'')\<rparr>"

text \<open>A category with one material and 1200 units of it.\<close>

definition cascadeInventory :: "sheet list" where
  "cascadeInventory =
     map (\<lambda>k. exampleSheet (replicate (Suc k) CHR ''u'') ''A16GA'' 96 (int k) OnHand) [0..<1200]"

definition exampleItem :: "string \<Rightarrow> int \<Rightarrow> item" where
  "exampleItem mt q =
     \<lparr>itemMaterialType = mt, itemCostPerPound = 0,
      itemQty = (\<lambda>len. if len = 96 then q else 0)\<rparr>"

definition exampleJob :: "string \<Rightarrow> item list \<Rightarrow> job_form" where
  "exampleJob n its =
     \<lparr>customer = ''Customer'', jobName = n, items = its, jobStatus = OnHand,
      jobSupplier = ''Acme'', jobArrivalDate = None\<rparr>"

definition scheduledOpts :: use_options where
  "scheduledOpts = \<lparr>isScheduled = True, scheduledDate = Some 5000\<rparr>"

definition blankDateOpts :: use_options where
  "blankDateOpts = \<lparr>isScheduled = True, scheduledDate = None\<rparr>"

definition immediateOpts :: use_options where
  "immediateOpts = \<lparr>isScheduled = False, scheduledDate = None\<rparr>"

definition emptyStore :: store where
  "emptyStore = \<lparr>sheets = [], logs = []\<rparr>"

text \<open>Three units on hand of material A16GA at length 96.\<close>

definition threeOnHand :: "sheet list" where
  "threeOnHand =
     [exampleSheet ''u1'' ''A16GA'' 96 10 OnHand,
      exampleSheet ''u2'' ''A16GA'' 96 20 OnHand,
      exampleSheet ''u3'' ''A16GA'' 96 30 OnHand]"

text \<open>
  A Completed record \<open>L1\<close> that consumed the only two units of A16GA at length 96, and the
  request to edit it down to one unit.
\<close>

definition consumedBy :: "doc_id \<Rightarrow> sheet \<Rightarrow> sheet" where
  "consumedBy l sh = applySheetUpdate (MarkUsed l ''J1'' ''Customer'' 500) sh"

definition editLog :: usage_log where
  "editLog =
     \<lparr>logId = ''L1'', logJob = ''J1'', logCustomer = ''Customer'',
      logCreatedAt = 500, logUsedAt = 500, logStatus = Some Completed,
      details = [Snapshot (exampleSheet ''u1'' ''A16GA'' 96 10 OnHand),
                 Snapshot (exampleSheet ''u2'' ''A16GA'' 96 20 OnHand)],
      qty = - 2, fulfilledAt = None\<rparr>"

definition editSheets :: "sheet list" where
  "editSheets =
     [consumedBy ''L1'' (exampleSheet ''u1'' ''A16GA'' 96 10 OnHand),
      consumedBy ''L1'' (exampleSheet ''u2'' ''A16GA'' 96 20 OnHand)]"

definition editStore :: store where
  "editStore = \<lparr>sheets = editSheets, logs = [editLog]\<rparr>"

definition editForm :: log_form where
  "editForm =
     \<lparr>formJobName = ''J1'', formCustomer = ''Customer'',
      formItems = [exampleItem ''A16GA'' 1], formDate = Some 500\<rparr>"

text \<open>One unit on hand, and a job that uses it.\<close>

definition oneOnHand :: "sheet list" where
  "oneOnHand = [exampleSheet ''u1'' ''A16GA'' 96 10 OnHand]"

text \<open>
  A store in which the unit has meanwhile been consumed by record \<open>L0\<close>, while the
  inventory array still shows it on hand.
\<close>

definition consumedStore :: store where
  "consumedStore =
     \<lparr>sheets = [consumedBy ''L0'' (exampleSheet ''u1'' ''A16GA'' 96 10 OnHand)],
      logs = [editLog\<lparr>logId := ''L0'',
                details := [Snapshot (exampleSheet ''u1'' ''A16GA'' 96 10 OnHand)], qty := - 1\<rparr>]\<rparr>"

text \<open>An environment whose summary counts the units on hand in its inventory array.\<close>

definition countingEnv :: "sheet list \<Rightarrow> env" where
  "countingEnv pool =
     (exampleEnv pool)\<lparr>inventorySummary :=
        (\<lambda>mt len. Some (int (length (filter (matches mt len) pool))))\<rparr>"

section \<open>Properties of the selection\<close>

lemma set_insertBy: "set (insertBy cmp x xs) = insert x (set xs)"
  by (induction xs) auto

lemma length_insertBy: "length (insertBy cmp x xs) = Suc (length xs)"
  by (induction xs) auto

lemma set_sortBy: "set (sortBy cmp xs) = set xs"
  by (induction xs) (auto simp: set_insertBy)

lemma length_sortBy: "length (sortBy cmp xs) = length xs"
  by (induction xs) (auto simp: length_insertBy)

lemma filter_insertBy_other:
  "\<not> P x \<Longrightarrow> filter P (insertBy cmp x xs) = filter P xs"
  by (induction xs) auto

lemma sorted_insertBy:
  "sorted (map createdAt xs) \<Longrightarrow> sorted (map createdAt (insertBy byCreatedAt x xs))"
  by (induction xs) (auto simp: byCreatedAt_def set_insertBy)

lemma sorted_sortBy: "sorted (map createdAt (sortBy byCreatedAt xs))"
  by (induction xs) (auto simp: sorted_insertBy)

lemma filter_key_insertBy:
  "sorted (map createdAt xs) \<Longrightarrow>
   filter (\<lambda>y. createdAt y = createdAt x) (insertBy byCreatedAt x xs)
     = x # filter (\<lambda>y. createdAt y = createdAt x) xs"
proof (induction xs)
  case Nil
  then show ?case by simp
next
  case (Cons y ys)
  show ?case
  proof (cases "byCreatedAt x y \<le> 0")
    case True
    then show ?thesis by simp
  next
    case False
    then have "createdAt y < createdAt x" by (simp add: byCreatedAt_def)
    with Cons False show ?thesis by simp
  qed
qed

lemma stable_sortBy:
  "filter (\<lambda>y. createdAt y = k) (sortBy byCreatedAt xs) = filter (\<lambda>y. createdAt y = k) xs"
proof (induction xs)
  case Nil
  then show ?case by simp
next
  case (Cons x xs)
  show ?case
  proof (cases "createdAt x = k")
    case True
    have "filter (\<lambda>y. createdAt y = createdAt x) (insertBy byCreatedAt x (sortBy byCreatedAt xs))
          = x # filter (\<lambda>y. createdAt y = createdAt x) (sortBy byCreatedAt xs)"
      by (rule filter_key_insertBy) (rule sorted_sortBy)
    with True Cons show ?thesis by simp
  next
    case False
    with Cons show ?thesis by (simp add: filter_insertBy_other)
  qed
qed

text \<open>
  C4.  The selection keeps exactly the units of the pool that satisfy the predicate (each as
  often as the pool has it), lists them by ascending createdAt, and leaves units with the same
  createdAt in the order the pool enumerates them; the allocation is the first \<open>n\<close> of that
  list.  Being a function of pool, predicate and quantity, a repeated call returns the same
  list.
\<close>

theorem C4_fifo_selection:
  "sorted (map createdAt (selectFifo pool pred))
   \<and> length (selectFifo pool pred) = length (filter pred pool)
   \<and> set (selectFifo pool pred) = set (filter pred pool)
   \<and> (\<forall>k. filter (\<lambda>y. createdAt y = k) (selectFifo pool pred)
            = filter (\<lambda>y. createdAt y = k) (filter pred pool))
   \<and> slice0 (int n) (selectFifo pool pred) = take n (selectFifo pool pred)"
  by (simp add: selectFifo_def slice0_def sorted_sortBy length_sortBy
      set_sortBy stable_sortBy)

section \<open>Chunked category deletion\<close>

lemma concat_chunksFrom: "concat (chunksFrom i refs) = drop i refs"
proof (induction i refs rule: chunksFrom.induct)
  case (1 i refs)
  show ?case
  proof (cases "i < length refs")
    case True
    have "take MAX_BATCH_SIZE (drop i refs) @ drop (i + MAX_BATCH_SIZE) refs = drop i refs"
      by (metis add.commute append_take_drop_id drop_drop)
    with True 1 show ?thesis by (subst chunksFrom.simps) simp
  next
    case False
    then show ?thesis by (subst chunksFrom.simps) simp
  qed
qed

lemma sizes_chunksFrom:
  "map length (chunksFrom i refs) =
     replicate ((length refs - i) div MAX_BATCH_SIZE) MAX_BATCH_SIZE
     @ (if (length refs - i) mod MAX_BATCH_SIZE = 0 then []
        else [(length refs - i) mod MAX_BATCH_SIZE])"
proof (induction i refs rule: chunksFrom.induct)
  case (1 i refs)
  let ?M = MAX_BATCH_SIZE
  have M: "0 < ?M" by (simp add: MAX_BATCH_SIZE_def)
  show ?case
  proof (cases "i < length refs")
    case False
    then show ?thesis by (subst chunksFrom.simps) simp
  next
    case True
    note IH = 1[OF True]
    show ?thesis
    proof (cases "length refs - i < ?M")
      case True
      then have "\<not> i + ?M < length refs" by simp
      then have e: "chunksFrom (i + ?M) refs = []" by (subst chunksFrom.simps) simp
      from True \<open>i < length refs\<close> show ?thesis
        by (subst chunksFrom.simps) (simp add: e min_def)
    next
      case False
      then have ge: "?M \<le> length refs - i" by simp
      then have d: "(length refs - i) div ?M = Suc ((length refs - (i + ?M)) div ?M)"
        using M by (metis Suc_eq_plus1 diff_diff_left div_add_self2 le_add_diff_inverse2 less_numeral_extra(3))
      have m: "(length refs - i) mod ?M = (length refs - (i + ?M)) mod ?M"
        using ge by (metis diff_diff_left le_mod_geq)
      from True ge show ?thesis
        by (subst chunksFrom.simps) (simp add: IH d m min_def)
    qed
  qed
qed


lemma cascade_example_counts:
  "length (materialIdsToDelete (exampleEnv cascadeInventory)) = 1
   \<and> length (inventoryToDelete (exampleEnv cascadeInventory)) = 1200"
  by (simp add: materialIdsToDelete_def inventoryToDelete_def exampleEnv_def
      cascadeInventory_def exampleSheet_def filter_map comp_def)

text \<open>
  C8, as stated, fails: the deletion list holds the documents of the categories' materials in
  front of the units', so a category whose one material has 1200 units is deleted in commits
  of 500, 500 and 201 operations.
\<close>

theorem C8_cascade_1200_units_counterexample:
  "length (inventoryToDelete (exampleEnv cascadeInventory)) = 1200
   \<and> map length (handleConfirmDeleteCategories (exampleEnv cascadeInventory)) = [500, 500, 201]
   \<and> map length (handleConfirmDeleteCategories (exampleEnv cascadeInventory)) \<noteq> [500, 500, 200]"
proof -
  have n: "length (allDocRefsToDelete (exampleEnv cascadeInventory)) = 1201"
    using cascade_example_counts by (simp add: allDocRefsToDelete_def)
  have r: "replicate 2 (500::nat) = [500, 500]" by (simp add: numeral_2_eq_2)
  have "map length (handleConfirmDeleteCategories (exampleEnv cascadeInventory)) = [500, 500, 201]"
    unfolding handleConfirmDeleteCategories_def sizes_chunksFrom n
    by (simp add: MAX_BATCH_SIZE_def r)
  with cascade_example_counts show ?thesis by simp
qed

text \<open>
  C8, amended.  The batches, in the order they are committed, make up the list of the
  material documents followed by the unit documents; every batch holds 500 deletions but
  the last, which holds the remainder.  For one material with 1200 units that is 500, 500, 201.
\<close>

theorem C8_cascade_chunks:
  "concat (handleConfirmDeleteCategories E) = allDocRefsToDelete E
   \<and> length (allDocRefsToDelete E)
       = length (materialIdsToDelete E) + length (inventoryToDelete E)
   \<and> map length (handleConfirmDeleteCategories E)
       = replicate (length (allDocRefsToDelete E) div 500) 500
         @ (if length (allDocRefsToDelete E) mod 500 = 0 then []
            else [length (allDocRefsToDelete E) mod 500])"
  using sizes_chunksFrom [of 0 "allDocRefsToDelete E"]
  by (simp add: handleConfirmDeleteCategories_def concat_chunksFrom MAX_BATCH_SIZE_def
      allDocRefsToDelete_def)

section \<open>Lot timestamp of an edited order\<close>

lemma createdAt_orderSheet: "createdAt (orderSheet E og j it len i) = orderCreatedAt E og"
  by (simp add: orderSheet_def)

lemma createdAt_createdSheets:
  "map createdAt (createdSheets E jobs og)
     = replicate (length (orderUnits E jobs)) (orderCreatedAt E og)"
  by (simp add: createdSheets_def createdAt_orderSheet comp_def case_prod_unfold
      map_replicate_const)

text \<open>
  C10.  Editing an order queues the deletion of the group's units and the creation of the
  replacements, each with createdAt set to the group's date (\<^verbatim>\<open>date\<close>, or
  \<^verbatim>\<open>dateOrdered\<close> when the group has no \<^verbatim>\<open>date\<close>); without an original
  group the units are created with createdAt set to the time of the call.
\<close>

theorem C10_edit_keeps_lot_timestamp:
  "addOrEditOrderBody E jobs (Some g)
     = Inr (map (\<lambda>d. DeleteSheet (sheetId d)) (groupDetails g)
            @ map SetSheet (createdSheets E jobs (Some g)))
   \<and> map createdAt (createdSheets E jobs (Some g))
       = replicate (length (orderUnits E jobs))
           (case groupDate g of Some d \<Rightarrow> d | None \<Rightarrow> dateOrdered g)
   \<and> addOrEditOrderBody E jobs None = Inr (map SetSheet (createdSheets E jobs None))
   \<and> map createdAt (createdSheets E jobs None)
       = replicate (length (orderUnits E jobs)) (now E)"
  by (simp add: addOrEditOrderBody_def createdAt_createdSheets orderCreatedAt_def)

section \<open>Committing writes\<close>

lemma commitSheets_append:
  "commitSheets (ws @ vs) xs =
     (case commitSheets ws xs of None \<Rightarrow> None | Some ys \<Rightarrow> commitSheets vs ys)"
  by (induction ws arbitrary: xs) (auto split: option.splits)

lemma commitLogs_append:
  "commitLogs (ws @ vs) xs =
     (case commitLogs ws xs of None \<Rightarrow> None | Some ys \<Rightarrow> commitLogs vs ys)"
  by (induction ws arbitrary: xs) (auto split: option.splits)

lemma commitSheets_SetLogs: "commitSheets (map SetLog ls) xs = Some xs"
  by (induction ls) auto

lemma commitLogs_SetLogs: "\<exists>ys. commitLogs (map SetLog ls) xs = Some ys"
  by (induction ls arbitrary: xs) auto

section \<open>Scheduled use\<close>

lemma scheduled_writes:
  "isScheduled opts \<Longrightarrow> scheduledDate opts = Some d \<Longrightarrow>
   useStockJobs E opts n jobs =
     Inr (map (\<lambda>(k, j). SetLog (scheduledEntry E d (autoId E k) j))
            (enumerate n (filter (\<lambda>j. scheduledDetails E (items j) \<noteq> []) jobs)))"
  by (induction jobs arbitrary: n) auto

lemma scheduled_blank_date:
  "isScheduled opts \<Longrightarrow> scheduledDate opts = None \<Longrightarrow>
   useStockJobs E opts n jobs =
     (if list_ex (\<lambda>j. scheduledDetails E (items j) \<noteq> []) jobs then Inl RangeError else Inr [])"
  by (induction jobs arbitrary: n) auto

lemma requirements_positive: "(mt, len, q) \<in> set (requirements E its) \<Longrightarrow> 0 < q"
  by (auto simp: requirements_def split: if_splits)

lemma length_scheduledDetails_aux:
  "\<forall>r \<in> set rs. 0 < snd (snd r) \<Longrightarrow>
   int (length (concat (map (\<lambda>(mt, len, q). replicate (nat q) (syntheticFor E mt len)) rs)))
     = sum_list (map (\<lambda>(mt, len, q). q) rs)"
  by (induction rs) (auto simp: case_prod_unfold)

lemma length_scheduledDetails:
  "int (length (scheduledDetails E its)) = totalItems E its"
  unfolding scheduledDetails_def totalItems_def
  by (rule length_scheduledDetails_aux) (auto dest: requirements_positive)

lemma scheduledDetails_empty_aux:
  "\<forall>r \<in> set rs. 0 < snd (snd r) \<Longrightarrow>
   (concat (map (\<lambda>(mt, len, q). replicate (nat q) (syntheticFor E mt len)) rs) = []) = (rs = [])"
  by (cases rs) (auto simp: case_prod_unfold)

lemma scheduledDetails_empty:
  "(scheduledDetails E its = []) = (requirements E its = [])"
  unfolding scheduledDetails_def
  by (rule scheduledDetails_empty_aux) (auto dest: requirements_positive)

lemma scheduledDetails_inventory_free:
  "scheduledDetails (E\<lparr>inventory := pool\<rparr>) its = scheduledDetails E its"
  by (simp add: scheduledDetails_def requirements_def syntheticFor_def materialInfo_def)

lemma scheduled_inventory_free:
  assumes "isScheduled opts"
  shows "useStockJobs (E\<lparr>inventory := pool\<rparr>) opts n jobs = useStockJobs E opts n jobs"
proof (cases "scheduledDate opts")
  case None
  with assms show ?thesis
    by (simp add: scheduled_blank_date scheduledDetails_inventory_free)
next
  case (Some d)
  with assms show ?thesis
    by (simp add: scheduled_writes scheduledEntry_def scheduledDetails_def totalItems_def
        requirements_def syntheticFor_def materialInfo_def)
qed

lemma runTransaction_SetLogs:
  "\<exists>ys. runTransaction (Inr (map SetLog ls)) s = (None, \<lparr>sheets = sheets s, logs = ys\<rparr>)"
proof -
  obtain ys where "commitLogs (map SetLog ls) (logs s) = Some ys"
    using commitLogs_SetLogs by blast
  then show ?thesis
    by (simp add: runTransaction_def commit_def commitSheets_SetLogs)
qed

lemma scheduled_commit:
  assumes "isScheduled opts" and "scheduledDate opts = Some d"
  shows "\<exists>ls. handleUseStock E jobs opts s = (None, \<lparr>sheets = sheets s, logs = ls\<rparr>)"
proof -
  define ls where "ls = map (\<lambda>(k, j). scheduledEntry E d (autoId E k) j)
               (enumerate 0 (filter (\<lambda>j. scheduledDetails E (items j) \<noteq> []) jobs))"
  have ws: "useStockJobs E opts 0 jobs = Inr (map SetLog ls)"
    by (simp add: ls_def scheduled_writes [OF assms] case_prod_unfold comp_def)
  show ?thesis
    unfolding handleUseStock_def ws by (rule runTransaction_SetLogs)
qed

lemma scheduled_blank_date_result:
  assumes "isScheduled opts" and "scheduledDate opts = None"
  shows "handleUseStock E jobs opts s =
           (if list_ex (\<lambda>j. requirements E (items j) \<noteq> []) jobs then (Some RangeError, s)
            else (None, s))"
  by (simp add: handleUseStock_def scheduled_blank_date [OF assms] scheduledDetails_empty
      runTransaction_def commit_def)

lemma scheduled_sheets_unchanged:
  assumes "isScheduled opts"
  shows "sheets (snd (handleUseStock E jobs opts s)) = sheets s"
proof (cases "scheduledDate opts")
  case None
  with assms show ?thesis by (simp add: scheduled_blank_date_result)
next
  case (Some d)
  from scheduled_commit [OF assms Some, of E jobs s] show ?thesis by auto
qed

lemma scheduledEntry_fields:
  "logStatus (scheduledEntry E d i j) = Some Scheduled"
  "qty (scheduledEntry E d i j) = - int (length (details (scheduledEntry E d i j)))"
  "details (scheduledEntry E d i j) =
     concat (map (\<lambda>(mt, len, q). replicate (nat q) (syntheticFor E mt len))
              (requirements E (items j)))"
    apply (simp add: scheduledEntry_def)
   apply (simp add: scheduledEntry_def length_scheduledDetails)
  apply (simp add: scheduledEntry_def scheduledDetails_def)
  done

text \<open>
  C9, amended.  A scheduled call does not depend on the inventory array and leaves the
  inventory collection as it was.  When the scheduled date parses, the call succeeds and
  queues nothing but one new record for every job that requests at least one unit, in the
  order of the jobs (a job without a positive quantity gets no record); each record has
  status Scheduled, holds one synthetic descriptor per requested unit and has qty equal to
  minus the number of its details.  When the scheduled date is blank or unparsable, the call
  fails with the RangeError and writes nothing if some job requests a unit, and otherwise
  succeeds without a write.
\<close>

theorem C9_scheduled_use:
  assumes "isScheduled opts"
  shows "useStockJobs (E\<lparr>inventory := pool\<rparr>) opts 0 jobs = useStockJobs E opts 0 jobs
         \<and> sheets (snd (handleUseStock E jobs opts s)) = sheets s
         \<and> (scheduledDate opts = Some d \<longrightarrow>
              useStockJobs E opts 0 jobs =
                Inr (map (\<lambda>(k, j). SetLog (scheduledEntry E d (autoId E k) j))
                       (enumerate 0 (filter (\<lambda>j. requirements E (items j) \<noteq> []) jobs)))
              \<and> fst (handleUseStock E jobs opts s) = None)
         \<and> (scheduledDate opts = None \<longrightarrow>
              handleUseStock E jobs opts s =
                (if list_ex (\<lambda>j. requirements E (items j) \<noteq> []) jobs
                 then (Some RangeError, s) else (None, s)))
         \<and> logStatus (scheduledEntry E d i j) = Some Scheduled
         \<and> qty (scheduledEntry E d i j) = - int (length (details (scheduledEntry E d i j)))
         \<and> details (scheduledEntry E d i j) =
             concat (map (\<lambda>(mt, len, q). replicate (nat q) (syntheticFor E mt len))
                      (requirements E (items j)))"
proof -
  have a: "useStockJobs E opts 0 jobs =
           Inr (map (\<lambda>(k, j). SetLog (scheduledEntry E d (autoId E k) j))
                  (enumerate 0 (filter (\<lambda>j. requirements E (items j) \<noteq> []) jobs)))
         \<and> fst (handleUseStock E jobs opts s) = None"
    if v: "scheduledDate opts = Some d"
  proof -
    from scheduled_commit [OF assms v, of E jobs s]
    have "fst (handleUseStock E jobs opts s) = None" by auto
    then show ?thesis by (simp only: scheduled_writes [OF assms v] scheduledDetails_empty)
  qed
  show ?thesis
    using a scheduledEntry_fields [of E d i j]
      scheduled_inventory_free [OF assms, where E = E and pool = pool and n = 0 and jobs = jobs]
      scheduled_sheets_unchanged [OF assms, where E = E and jobs = jobs and s = s]
      scheduled_blank_date_result [OF assms, where E = E and jobs = jobs and s = s]
    by blast
qed

text \<open>
  C9, as stated, fails twice over: with a date, a batch of one job whose quantities are all 0
  writes no record; with a blank date, a batch of one job that asks for two units fails with
  the RangeError and writes no record.
\<close>

theorem C9_empty_job_counterexample:
  "handleUseStock (exampleEnv []) [exampleJob ''J1'' [exampleItem ''A16GA'' 0]] scheduledOpts emptyStore
       = (None, emptyStore)
   \<and> handleUseStock (exampleEnv []) [exampleJob ''J1'' [exampleItem ''A16GA'' 2]] blankDateOpts
        emptyStore
       = (Some RangeError, emptyStore)"
  by (simp add: handleUseStock_def runTransaction_def commit_def exampleEnv_def scheduledOpts_def
      blankDateOpts_def exampleJob_def exampleItem_def emptyStore_def scheduledDetails_def
      requirements_def)

lemma example_requirements:
  "requirements (exampleEnv pool) (items (exampleJob n [exampleItem mt q]))
     = (if 0 < q then [(mt, 96, q)] else [])"
  by (simp add: requirements_def exampleEnv_def exampleJob_def exampleItem_def)

theorem C9_scheduled_use_witness:
  "isScheduled scheduledOpts \<and> scheduledDate scheduledOpts = Some 5000
   \<and> useStockJobs (exampleEnv []) scheduledOpts 0 [exampleJob ''J1'' [exampleItem ''A16GA'' 2]]
       = Inr [SetLog (scheduledEntry (exampleEnv []) 5000 ''n'' (exampleJob ''J1'' [exampleItem ''A16GA'' 2]))]
   \<and> fst (handleUseStock (exampleEnv []) [exampleJob ''J1'' [exampleItem ''A16GA'' 2]]
            scheduledOpts emptyStore) = None
   \<and> qty (scheduledEntry (exampleEnv []) 5000 ''n'' (exampleJob ''J1'' [exampleItem ''A16GA'' 2])) = - 2"
proof -
  have h: "isScheduled scheduledOpts" by (simp add: scheduledOpts_def)
  have v: "scheduledDate scheduledOpts = Some 5000" by (simp add: scheduledOpts_def)
  have i: "autoId (exampleEnv []) 0 = ''n''" by (simp add: exampleEnv_def)
  from C9_scheduled_use [OF h, where E = "exampleEnv []" and pool = "[]"
      and jobs = "[exampleJob ''J1'' [exampleItem ''A16GA'' 2]]" and s = emptyStore and d = 5000
      and i = "''n''" and j = "exampleJob ''J1'' [exampleItem ''A16GA'' 2]"] h v
  show ?thesis by (simp add: example_requirements i numeral_2_eq_2)
qed

section \<open>Immediate use: shortfall\<close>

lemma collect_Inl: "collect f rs = Inl e \<Longrightarrow> \<exists>r \<in> set rs. f r = Inl e"
  by (induction rs arbitrary: e) (auto split: sum.splits)

lemma collect_fails: "r \<in> set rs \<Longrightarrow> f r = Inl e \<Longrightarrow> \<exists>e'. collect f rs = Inl e'"
  by (induction rs) (auto split: sum.splits)

lemma length_selectFifo: "length (selectFifo pool pred) = length (filter pred pool)"
  by (simp add: selectFifo_def length_sortBy)

lemma useRequirement_Inl:
  "(useRequirement E (mt, len, q) = Inl e) =
     (int (length (filter (matches mt len) (inventory E))) < q
      \<and> e = InsufficientStock q mt len (length (filter (matches mt len) (inventory E))))"
  by (auto simp: useRequirement_def Let_def length_selectFifo)

lemma immediate_fails:
  "\<not> isScheduled opts \<Longrightarrow> j \<in> set jobs \<Longrightarrow> r \<in> set (requirements E (items j)) \<Longrightarrow>
   useRequirement E r = Inl e \<Longrightarrow> \<exists>e'. useStockJobs E opts n jobs = Inl e'"
proof (induction jobs arbitrary: n)
  case Nil
  then show ?case by simp
next
  case (Cons a jobs)
  show ?case
  proof (cases "collect (useRequirement E) (requirements E (items a))")
    case (Inl e1)
    with Cons.prems(1) show ?thesis by simp
  next
    case (Inr used)
    have "j \<noteq> a"
    proof
      assume "j = a"
      with Cons.prems collect_fails [of r "requirements E (items a)" "useRequirement E" e] Inr
      show False by auto
    qed
    with Cons.prems have "j \<in> set jobs" by simp
    from Cons.IH [OF Cons.prems(1) this Cons.prems(3,4), of "Suc n"]
    obtain e' where "useStockJobs E opts (Suc n) jobs = Inl e'" by blast
    with Inr Cons.prems(1) show ?thesis by simp
  qed
qed

lemma immediate_Inl:
  "\<not> isScheduled opts \<Longrightarrow> useStockJobs E opts n jobs = Inl e \<Longrightarrow>
   \<exists>j \<in> set jobs. \<exists>r \<in> set (requirements E (items j)). useRequirement E r = Inl e"
proof (induction jobs arbitrary: n)
  case Nil
  then show ?case by simp
next
  case (Cons a jobs)
  show ?case
  proof (cases "collect (useRequirement E) (requirements E (items a))")
    case (Inl e1)
    with Cons.prems have "e1 = e" by simp
    with Inl collect_Inl [of "useRequirement E" "requirements E (items a)" e]
    show ?thesis by auto
  next
    case (Inr used)
    with Cons.prems have "useStockJobs E opts (Suc n) jobs = Inl e"
      by (simp split: sum.splits)
    from Cons.IH [OF Cons.prems(1) this] show ?thesis by auto
  qed
qed

text \<open>
  C3.  If, in an immediate batch, some requirement of some job asks for more units than the
  inventory array holds on hand for its material and length, the call fails with the
  insufficient-stock error of such a requirement, carrying the requested quantity, the key and
  the available count, and the store is left exactly as it was: no unit changes, no record is
  written, for any job of the batch.
\<close>

theorem C3_immediate_use_all_or_nothing:
  assumes "\<not> isScheduled opts"
    and "j \<in> set jobs"
    and "(mt, len, q) \<in> set (requirements E (items j))"
    and "int (length (filter (matches mt len) (inventory E))) < q"
  shows "\<exists>j' mt' len' q'.
           j' \<in> set jobs \<and> (mt', len', q') \<in> set (requirements E (items j'))
           \<and> int (length (filter (matches mt' len') (inventory E))) < q'
           \<and> handleUseStock E jobs opts s =
               (Some (InsufficientStock q' mt' len'
                        (length (filter (matches mt' len') (inventory E)))), s)"
proof -
  from assms(4) have "useRequirement E (mt, len, q)
      = Inl (InsufficientStock q mt len (length (filter (matches mt len) (inventory E))))"
    by (simp add: useRequirement_Inl)
  from immediate_fails [OF assms(1,2,3) this]
  obtain e where e: "useStockJobs E opts 0 jobs = Inl e" by blast
  from immediate_Inl [OF assms(1) e]
  obtain j' r where j': "j' \<in> set jobs" and r: "r \<in> set (requirements E (items j'))"
    and f: "useRequirement E r = Inl e" by blast
  obtain mt' len' q' where rr: "r = (mt', len', q')" by (cases r) auto
  from f rr have short: "int (length (filter (matches mt' len') (inventory E))) < q'"
    and ee: "e = InsufficientStock q' mt' len' (length (filter (matches mt' len') (inventory E)))"
    by (simp_all add: useRequirement_Inl)
  have "handleUseStock E jobs opts s = (Some e, s)"
    by (simp add: handleUseStock_def runTransaction_def e)
  with j' r rr short ee show ?thesis by blast
qed

lemma threeOnHand_count:
  "filter (matches ''A16GA'' 96) (inventory (exampleEnv threeOnHand)) = threeOnHand"
  by (simp add: exampleEnv_def threeOnHand_def matches_def exampleSheet_def)

theorem C3_immediate_use_all_or_nothing_witness:
  "\<not> isScheduled immediateOpts
   \<and> (''A16GA'', 96, 4) \<in> set (requirements (exampleEnv threeOnHand)
         (items (exampleJob ''J1'' [exampleItem ''A16GA'' 4])))
   \<and> int (length (filter (matches ''A16GA'' 96) (inventory (exampleEnv threeOnHand)))) < 4
   \<and> handleUseStock (exampleEnv threeOnHand) [exampleJob ''J1'' [exampleItem ''A16GA'' 4]]
       immediateOpts \<lparr>sheets = threeOnHand, logs = []\<rparr>
       = (Some (InsufficientStock 4 ''A16GA'' 96 3), \<lparr>sheets = threeOnHand, logs = []\<rparr>)"
proof -
  have h1: "\<not> isScheduled immediateOpts" by (simp add: immediateOpts_def)
  have h2: "exampleJob ''J1'' [exampleItem ''A16GA'' 4] \<in> set [exampleJob ''J1'' [exampleItem ''A16GA'' 4]]"
    by simp
  have h3: "(''A16GA'', 96, 4) \<in> set (requirements (exampleEnv threeOnHand)
         (items (exampleJob ''J1'' [exampleItem ''A16GA'' 4])))"
    by (simp add: example_requirements)
  have h4: "int (length (filter (matches ''A16GA'' 96) (inventory (exampleEnv threeOnHand)))) < 4"
    by (simp add: threeOnHand_count) (simp add: threeOnHand_def)
  from C3_immediate_use_all_or_nothing [OF h1 h2 h3 h4, of "\<lparr>sheets = threeOnHand, logs = []\<rparr>"]
  obtain j' mt' len' q' where
    a: "j' \<in> set [exampleJob ''J1'' [exampleItem ''A16GA'' 4]]"
    and b: "(mt', len', q') \<in> set (requirements (exampleEnv threeOnHand) (items j'))"
    and c: "handleUseStock (exampleEnv threeOnHand) [exampleJob ''J1'' [exampleItem ''A16GA'' 4]]
       immediateOpts \<lparr>sheets = threeOnHand, logs = []\<rparr>
       = (Some (InsufficientStock q' mt' len'
           (length (filter (matches mt' len') (inventory (exampleEnv threeOnHand))))),
          \<lparr>sheets = threeOnHand, logs = []\<rparr>)"
    by blast
  from a have "j' = exampleJob ''J1'' [exampleItem ''A16GA'' 4]" by simp
  with b have "mt' = ''A16GA'' \<and> len' = 96 \<and> q' = 4" by (simp add: example_requirements)
  with c have "handleUseStock (exampleEnv threeOnHand) [exampleJob ''J1'' [exampleItem ''A16GA'' 4]]
       immediateOpts \<lparr>sheets = threeOnHand, logs = []\<rparr>
       = (Some (InsufficientStock 4 ''A16GA'' 96 3), \<lparr>sheets = threeOnHand, logs = []\<rparr>)"
    by (simp add: threeOnHand_count) (simp add: threeOnHand_def)
  with h1 h3 h4 show ?thesis by blast
qed

section \<open>The handlers at concrete inputs\<close>

lemmas example_defs =
  exampleEnv_def exampleSheet_def exampleItem_def exampleJob_def immediateOpts_def
  consumedBy_def editLog_def editSheets_def editStore_def editForm_def oneOnHand_def
  consumedStore_def

lemmas handler_defs =
  handleUseStock_def handleEditOutgoingLog_def handleSubmit_def runTransaction_def commit_def
  requirements_def useRequirement_def editRequirement_def modalRequirement_def
  editCompletedBody_def netChange_def detailKey_def originalItemIds_def itemsToReturn_def
  selectFifo_def matches_def byCreatedAt_def slice0_def markUsedFor_def completedEntry_def
  modalEntry_def hasSheet_def hasLog_def trim_def isSpace_def jobLabel_def

text \<open>
  C1: the code at the input of the claim.  Record \<open>L1\<close> consumed the two units of
  A16GA at length 96, no other unit of that key is on hand, and the edit asks for one unit.
  The pre-check passes (the net change is +1, nothing more is needed), but the re-allocation
  looks for a unit on hand in the inventory array other than the record's own two, finds none
  and throws the "Concurrency Error"; the transaction is abandoned and both units stay Used.
\<close>

theorem C1_edit_down_fails:
  "preCheck (exampleEnv editSheets) (netChange (exampleEnv editSheets) (details editLog) (formItems editForm)) = None
   \<and> handleEditOutgoingLog (exampleEnv editSheets) editLog editForm editStore
       = (Some (ConcurrencyError ''A16GA'' 96), editStore)
   \<and> map status (sheets editStore) = [Used, Used]"
  by (simp add: handler_defs example_defs)

text \<open>
  With a third unit of the key on hand the same edit goes through: it hands both original
  units back and consumes the third.
\<close>

lemma edit_down_takes_another_unit:
  "map (\<lambda>u. (sheetId u, status u, usageLogId u))
     (sheets (snd (handleEditOutgoingLog
        (exampleEnv (editSheets @ [exampleSheet ''u3'' ''A16GA'' 96 30 OnHand]))
        editLog editForm
        (editStore\<lparr>sheets := editSheets @ [exampleSheet ''u3'' ''A16GA'' 96 30 OnHand]\<rparr>))))
   = [(''u1'', OnHand, None), (''u2'', OnHand, None), (''u3'', Used, Some ''L1'')]"
  by (simp add: handler_defs example_defs)

text \<open>
  C2: the code at a failing input.  Submitting the "use" form for one unit, with that unit on
  hand, deletes the unit's document and writes a record without a status whose detail has no
  id; \<^verbatim>\<open>handleUseStock\<close> on the same input keeps the unit, marks it Used with the
  back-references to the new record, and writes that record as Completed.
\<close>

theorem C2_use_modal_deletes_unit:
  "handleSubmit (exampleEnv oneOnHand) [exampleJob ''J1'' [exampleItem ''A16GA'' 1]]
      \<lparr>sheets = oneOnHand, logs = []\<rparr>
     = (None, \<lparr>sheets = [],
               logs = [modalEntry (exampleEnv oneOnHand) ''n''
                         (exampleJob ''J1'' [exampleItem ''A16GA'' 1]) oneOnHand]\<rparr>)
   \<and> logStatus (modalEntry (exampleEnv oneOnHand) ''n''
                   (exampleJob ''J1'' [exampleItem ''A16GA'' 1]) oneOnHand) = None
   \<and> map detailId (details (modalEntry (exampleEnv oneOnHand) ''n''
                   (exampleJob ''J1'' [exampleItem ''A16GA'' 1]) oneOnHand)) = [None]
   \<and> handleUseStock (exampleEnv oneOnHand) [exampleJob ''J1'' [exampleItem ''A16GA'' 1]]
        immediateOpts \<lparr>sheets = oneOnHand, logs = []\<rparr>
     = (None, \<lparr>sheets = [applySheetUpdate (MarkUsed ''n'' ''J1'' ''Customer'' 1000)
                            (exampleSheet ''u1'' ''A16GA'' 96 10 OnHand)],
               logs = [completedEntry (exampleEnv oneOnHand) ''n''
                         (exampleJob ''J1'' [exampleItem ''A16GA'' 1]) oneOnHand]\<rparr>)"
  by (simp add: handler_defs example_defs)

text \<open>
  C6, as stated, fails: the store holds no unit on hand (its only unit is Used by record
  \<open>L0\<close>), the inventory array still shows the unit on hand, and the immediate use of one
  unit succeeds and hands the unit to the new record.
\<close>

theorem C6_stale_inventory_counterexample:
  "filter (matches ''A16GA'' 96) (sheets consumedStore) = []
   \<and> map usageLogId (sheets consumedStore) = [Some ''L0'']
   \<and> fst (handleUseStock (exampleEnv oneOnHand) [exampleJob ''J1'' [exampleItem ''A16GA'' 1]]
        immediateOpts consumedStore) = None
   \<and> map usageLogId (sheets (snd (handleUseStock (exampleEnv oneOnHand)
        [exampleJob ''J1'' [exampleItem ''A16GA'' 1]] immediateOpts consumedStore))) = [Some ''n'']"
  by (simp add: handler_defs example_defs)

section \<open>Which documents a commit needs\<close>

lemma sheetId_applySheetUpdate [simp]: "sheetId (applySheetUpdate u x) = sheetId x"
  by (cases u) auto

lemma logId_applyLogUpdate [simp]: "logId (applyLogUpdate u x) = logId x"
  by (cases u) auto

lemma ids_SetSheet:
  "sheetId ` set (if hasSheet (sheetId sh) zs
           then map (\<lambda>x. if sheetId x = sheetId sh then sh else x) zs else zs @ [sh])
         = insert (sheetId sh) (sheetId ` set zs)"
  by (auto simp: hasSheet_def image_iff)

lemma map_sheetId_update:
  "map sheetId (map (\<lambda>x. if sheetId x = i then applySheetUpdate u x else x) zs) = map sheetId zs"
  by (induction zs) auto

lemma ids_UpdateSheet:
  "sheetId ` set (map (\<lambda>x. if sheetId x = i then applySheetUpdate u x else x) zs)
         = sheetId ` set zs"
  using map_sheetId_update [of i u zs] by (metis set_map)

lemma ids_DeleteSheet:
  "sheetId ` set (filter (\<lambda>x. sheetId x \<noteq> i) zs) = sheetId ` set zs - {i}"
  by auto

lemma applyToSheets_Some_ids:
  "applyToSheets w xs = Some ys \<Longrightarrow>
   sheetId ` set ys =
     (case w of SetSheet sh \<Rightarrow> insert (sheetId sh) (sheetId ` set xs)
              | DeleteSheet i \<Rightarrow> sheetId ` set xs - {i}
              | _ \<Rightarrow> sheetId ` set xs)"
proof (cases w)
  case (SetSheet sh)
  assume "applyToSheets w xs = Some ys"
  with SetSheet have "ys = (if hasSheet (sheetId sh) xs
           then map (\<lambda>x. if sheetId x = sheetId sh then sh else x) xs else xs @ [sh])"
    by simp
  with SetSheet show ?thesis by (simp only: ids_SetSheet write_op.case)
next
  case (UpdateSheet i u)
  assume "applyToSheets w xs = Some ys"
  with UpdateSheet have "ys = map (\<lambda>x. if sheetId x = i then applySheetUpdate u x else x) xs"
    by (simp split: if_splits)
  with UpdateSheet show ?thesis by (simp only: ids_UpdateSheet write_op.case)
next
  case (DeleteSheet i)
  assume "applyToSheets w xs = Some ys"
  with DeleteSheet have "ys = filter (\<lambda>x. sheetId x \<noteq> i) xs" by simp
  with DeleteSheet show ?thesis by (simp only: ids_DeleteSheet write_op.case)
qed auto

lemma applyToSheets_ids:
  assumes "sheetId ` set xs = sheetId ` set xs'"
  shows "(applyToSheets w xs = None) = (applyToSheets w xs' = None)"
    and "applyToSheets w xs = Some ys \<Longrightarrow> applyToSheets w xs' = Some ys' \<Longrightarrow>
         sheetId ` set ys = sheetId ` set ys'"
proof -
  show "(applyToSheets w xs = None) = (applyToSheets w xs' = None)"
    using assms by (cases w) (auto simp: hasSheet_def)
next
  assume a: "applyToSheets w xs = Some ys" and b: "applyToSheets w xs' = Some ys'"
  show "sheetId ` set ys = sheetId ` set ys'"
    by (simp only: applyToSheets_Some_ids [OF a] applyToSheets_Some_ids [OF b] assms)
qed

lemma commitSheets_ids:
  "sheetId ` set xs = sheetId ` set xs' \<Longrightarrow>
   (commitSheets ws xs = None) = (commitSheets ws xs' = None)"
proof (induction ws arbitrary: xs xs')
  case Nil
  then show ?case by simp
next
  case (Cons w ws)
  show ?case
  proof (cases "applyToSheets w xs")
    case None
    with applyToSheets_ids(1) [OF Cons.prems, of w] show ?thesis by simp
  next
    case (Some ys)
    with applyToSheets_ids(1) [OF Cons.prems, of w]
    obtain ys' where ys': "applyToSheets w xs' = Some ys'" by auto
    from applyToSheets_ids(2) [OF Cons.prems Some ys']
    have "sheetId ` set ys = sheetId ` set ys'" .
    from Cons.IH [OF this] Some ys' show ?thesis by simp
  qed
qed

lemma ids_SetLog:
  "logId ` set (if hasLog (logId sh) zs
           then map (\<lambda>x. if logId x = logId sh then sh else x) zs else zs @ [sh])
         = insert (logId sh) (logId ` set zs)"
  by (auto simp: hasLog_def image_iff)

lemma map_logId_update:
  "map logId (map (\<lambda>x. if logId x = i then applyLogUpdate u x else x) zs) = map logId zs"
  by (induction zs) auto

lemma ids_UpdateLog:
  "logId ` set (map (\<lambda>x. if logId x = i then applyLogUpdate u x else x) zs)
         = logId ` set zs"
  using map_logId_update [of i u zs] by (metis set_map)

lemma ids_DeleteLog:
  "logId ` set (filter (\<lambda>x. logId x \<noteq> i) zs) = logId ` set zs - {i}"
  by auto

lemma applyToLogs_Some_ids:
  "applyToLogs w xs = Some ys \<Longrightarrow>
   logId ` set ys =
     (case w of SetLog sh \<Rightarrow> insert (logId sh) (logId ` set xs)
              | DeleteLog i \<Rightarrow> logId ` set xs - {i}
              | _ \<Rightarrow> logId ` set xs)"
proof (cases w)
  case (SetLog sh)
  assume "applyToLogs w xs = Some ys"
  with SetLog have "ys = (if hasLog (logId sh) xs
           then map (\<lambda>x. if logId x = logId sh then sh else x) xs else xs @ [sh])"
    by simp
  with SetLog show ?thesis by (simp only: ids_SetLog write_op.case)
next
  case (UpdateLog i u)
  assume "applyToLogs w xs = Some ys"
  with UpdateLog have "ys = map (\<lambda>x. if logId x = i then applyLogUpdate u x else x) xs"
    by (simp split: if_splits)
  with UpdateLog show ?thesis by (simp only: ids_UpdateLog write_op.case)
next
  case (DeleteLog i)
  assume "applyToLogs w xs = Some ys"
  with DeleteLog have "ys = filter (\<lambda>x. logId x \<noteq> i) xs" by simp
  with DeleteLog show ?thesis by (simp only: ids_DeleteLog write_op.case)
qed auto

lemma applyToLogs_ids:
  assumes "logId ` set xs = logId ` set xs'"
  shows "(applyToLogs w xs = None) = (applyToLogs w xs' = None)"
    and "applyToLogs w xs = Some ys \<Longrightarrow> applyToLogs w xs' = Some ys' \<Longrightarrow>
         logId ` set ys = logId ` set ys'"
proof -
  show "(applyToLogs w xs = None) = (applyToLogs w xs' = None)"
    using assms by (cases w) (auto simp: hasLog_def)
next
  assume a: "applyToLogs w xs = Some ys" and b: "applyToLogs w xs' = Some ys'"
  show "logId ` set ys = logId ` set ys'"
    by (simp only: applyToLogs_Some_ids [OF a] applyToLogs_Some_ids [OF b] assms)
qed

lemma commitLogs_ids:
  "logId ` set xs = logId ` set xs' \<Longrightarrow>
   (commitLogs ws xs = None) = (commitLogs ws xs' = None)"
proof (induction ws arbitrary: xs xs')
  case Nil
  then show ?case by simp
next
  case (Cons w ws)
  show ?case
  proof (cases "applyToLogs w xs")
    case None
    with applyToLogs_ids(1) [OF Cons.prems, of w] show ?thesis by simp
  next
    case (Some ys)
    with applyToLogs_ids(1) [OF Cons.prems, of w]
    obtain ys' where ys': "applyToLogs w xs' = Some ys'" by auto
    from applyToLogs_ids(2) [OF Cons.prems Some ys']
    have "logId ` set ys = logId ` set ys'" .
    from Cons.IH [OF this] Some ys' show ?thesis by simp
  qed
qed

lemma runTransaction_outcome:
  assumes "sheetId ` set (sheets s1) = sheetId ` set (sheets s2)"
    and "logId ` set (logs s1) = logId ` set (logs s2)"
  shows "fst (runTransaction body s1) = fst (runTransaction body s2)"
proof (cases body)
  case (Inl e)
  then show ?thesis by (simp add: runTransaction_def)
next
  case (Inr ws)
  from commitSheets_ids [OF assms(1), of ws] commitLogs_ids [OF assms(2), of ws]
  have "(commit ws s1 = None) = (commit ws s2 = None)"
    by (auto simp: commit_def split: option.splits)
  with Inr show ?thesis by (auto simp: runTransaction_def split: option.splits)
qed

text \<open>
  C6, amended.  The four operations that select or count available units take them from the
  inventory array the hook closes over; the store enters only when the queued writes are
  committed, where an update needs its document to exist.  So whether the operation succeeds,
  and with which error it fails, is the same for any two stores that hold the same document
  ids, whatever the status of the units in them.
\<close>

theorem C6_outcome_decided_by_inventory_array:
  assumes "sheetId ` set (sheets s1) = sheetId ` set (sheets s2)"
    and "logId ` set (logs s1) = logId ` set (logs s2)"
  shows "fst (handleUseStock E jobs opts s1) = fst (handleUseStock E jobs opts s2)
       \<and> fst (handleFulfillScheduledLog E l s1) = fst (handleFulfillScheduledLog E l s2)
       \<and> fst (handleEditOutgoingLog E l f s1) = fst (handleEditOutgoingLog E l f s2)
       \<and> fst (handleStockEdit E mt len n s1) = fst (handleStockEdit E mt len n s2)"
  using runTransaction_outcome [OF assms]
  by (simp add: handleUseStock_def handleFulfillScheduledLog_def handleEditOutgoingLog_def
      handleStockEdit_def commitBatch_def Let_def split: option.splits)

theorem C6_outcome_decided_by_inventory_array_witness:
  "sheetId ` set (sheets consumedStore) = sheetId ` set (sheets (consumedStore\<lparr>sheets := oneOnHand\<rparr>))
   \<and> logId ` set (logs consumedStore) = logId ` set (logs (consumedStore\<lparr>sheets := oneOnHand\<rparr>))
   \<and> fst (handleUseStock (exampleEnv oneOnHand) [exampleJob ''J1'' [exampleItem ''A16GA'' 1]]
            immediateOpts consumedStore)
       = fst (handleUseStock (exampleEnv oneOnHand) [exampleJob ''J1'' [exampleItem ''A16GA'' 1]]
            immediateOpts (consumedStore\<lparr>sheets := oneOnHand\<rparr>))"
proof -
  have a: "sheetId ` set (sheets consumedStore) = sheetId ` set (sheets (consumedStore\<lparr>sheets := oneOnHand\<rparr>))"
    by (simp add: example_defs)
  have b: "logId ` set (logs consumedStore) = logId ` set (logs (consumedStore\<lparr>sheets := oneOnHand\<rparr>))"
    by simp
  from C6_outcome_decided_by_inventory_array [OF a b] a b show ?thesis by blast
qed

section \<open>Manual stock adjustment\<close>

lemma commitLogs_SetSheets: "commitLogs (map SetSheet new) ls = Some ls"
  by (induction new) auto

lemma commitLogs_DeleteSheets: "commitLogs (map (\<lambda>sh. DeleteSheet (f sh)) D) ls = Some ls"
  by (induction D) auto

lemma commitSheets_SetSheets_fresh:
  "distinct (map sheetId new) \<Longrightarrow> sheetId ` set new \<inter> sheetId ` set xs = {} \<Longrightarrow>
   commitSheets (map SetSheet new) xs = Some (xs @ new)"
proof (induction new arbitrary: xs)
  case Nil
  then show ?case by simp
next
  case (Cons a new)
  from Cons.prems have f: "\<not> hasSheet (sheetId a) xs" by (auto simp: hasSheet_def)
  from Cons.prems have "distinct (map sheetId new)"
    and "sheetId ` set new \<inter> sheetId ` set (xs @ [a]) = {}" by auto
  from Cons.IH [OF this] f show ?case by simp
qed

lemma commitSheets_DeleteSheets:
  "commitSheets (map (\<lambda>sh. DeleteSheet (sheetId sh)) D) xs
     = Some (filter (\<lambda>x. sheetId x \<notin> sheetId ` set D) xs)"
proof (induction D arbitrary: xs)
  case Nil
  then show ?case by simp
next
  case (Cons a D)
  have "filter (\<lambda>x. sheetId x \<notin> sheetId ` set D) (filter (\<lambda>x. sheetId x \<noteq> sheetId a) xs)
        = filter (\<lambda>x. sheetId x \<notin> sheetId ` set (a # D)) xs"
    by (induction xs) auto
  with Cons.IH [of "filter (\<lambda>x. sheetId x \<noteq> sheetId a) xs"] show ?case by simp
qed

lemma filter_ids_distinct:
  assumes "distinct (map sheetId xs)" and "set D \<subseteq> set xs"
  shows "filter (\<lambda>x. sheetId x \<notin> sheetId ` set D) xs = filter (\<lambda>x. x \<notin> set D) xs"
proof (rule filter_cong [OF refl])
  fix x assume x: "x \<in> set xs"
  from assms(1) have inj: "inj_on sheetId (set xs)" by (simp add: distinct_map)
  show "(sheetId x \<notin> sheetId ` set D) = (x \<notin> set D)"
  proof
    assume "sheetId x \<notin> sheetId ` set D" then show "x \<notin> set D" by auto
  next
    assume n: "x \<notin> set D"
    show "sheetId x \<notin> sheetId ` set D"
    proof
      assume "sheetId x \<in> sheetId ` set D"
      then obtain d where d: "d \<in> set D" and e: "sheetId x = sheetId d" by auto
      with assms(2) have "d \<in> set xs" by auto
      with inj x e have "x = d" by (auto dest: inj_onD)
      with d n show False by simp
    qed
  qed
qed

lemma distinct_insertBy: "distinct (insertBy cmp x xs) = (x \<notin> set xs \<and> distinct xs)"
  by (induction xs) (auto simp: set_insertBy)

lemma distinct_sortBy: "distinct (sortBy cmp xs) = distinct xs"
  by (induction xs) (auto simp: distinct_insertBy set_sortBy)

lemma length_filter_removed:
  assumes "distinct F" and "distinct D" and "set D \<subseteq> set F"
  shows "length (filter (\<lambda>x. x \<notin> set D) F) = length F - length D"
proof -
  have "length (filter (\<lambda>x. x \<notin> set D) F) = card (set F - set D)"
    using assms(1) by (simp add: distinct_length_filter Diff_eq Int_commute Collect_neg_eq)
  also have "\<dots> = card (set F) - card (set D)"
    using assms(3) by (simp add: card_Diff_subset)
  also have "\<dots> = length F - length D"
    using assms(1,2) by (simp add: distinct_card)
  finally show ?thesis .
qed

lemma removed_count:
  assumes "distinct (map sheetId xs)" and "k \<le> length (filter P xs)"
  shows "length (filter P (filter (\<lambda>x. x \<notin> set (take k (selectFifo xs P))) xs))
           = length (filter P xs) - k"
proof -
  let ?F = "filter P xs"
  let ?D = "take k (selectFifo xs P)"
  from assms(1) have dx: "distinct xs" by (simp add: distinct_map)
  then have dF: "distinct ?F" by simp
  have dS: "distinct (selectFifo xs P)" by (simp add: selectFifo_def distinct_sortBy dF)
  then have dD: "distinct ?D" by simp
  have sub: "set ?D \<subseteq> set ?F"
    using set_take_subset [of k "selectFifo xs P"] by (simp add: selectFifo_def set_sortBy)
  have lD: "length ?D = k" using assms(2) by (simp add: length_selectFifo)
  have "filter P (filter (\<lambda>x. x \<notin> set ?D) xs) = filter (\<lambda>x. x \<notin> set ?D) ?F"
    by (simp add: conj_commute)
  with length_filter_removed [OF dF dD sub] lD show ?thesis by simp
qed

lemma manualSheet_fields:
  "status (manualSheet E mt len i) = OnHand"
  "costPerPound (manualSheet E mt len i) = 0"
  "supplier (manualSheet E mt len i) = ''Manual Edit''"
  "job (manualSheet E mt len i) = ''MODIFICATION: ADD''"
  "materialType (manualSheet E mt len i) = mt"
  "lengthIn (manualSheet E mt len i) = len"
  "sheetId (manualSheet E mt len i) = i"
  "usageLogId (manualSheet E mt len i) = None"
  by (simp_all add: manualSheet_def)

lemma runTransaction_sheets:
  "commitSheets ws (sheets s) = Some xs \<Longrightarrow> commitLogs ws (logs s) = Some (logs s) \<Longrightarrow>
   runTransaction (Inr ws) s = (None, s\<lparr>sheets := xs\<rparr>)"
  by (simp add: runTransaction_def commit_def)

lemma stockEdit_add:
  assumes "0 < diff" and "inj (autoId E)" and "range (autoId E) \<inter> sheetId ` set (sheets s) = {}"
  shows "runTransaction (stockEditBody E mt len diff) s
           = (None, s\<lparr>sheets := sheets s
                @ map (\<lambda>k. manualSheet E mt len (autoId E k)) [0..<nat diff]\<rparr>)"
proof -
  let ?new = "map (\<lambda>k. manualSheet E mt len (autoId E k)) [0..<nat diff]"
  have b: "stockEditBody E mt len diff = Inr (map SetSheet ?new)"
    using assms(1) by (simp add: stockEditBody_def comp_def)
  have m: "map sheetId ?new = map (autoId E) [0..<nat diff]"
    by (simp add: comp_def manualSheet_fields)
  have d: "distinct (map sheetId ?new)"
    unfolding m using assms(2) by (simp add: distinct_map inj_on_def inj_def)
  have "sheetId ` set ?new \<subseteq> range (autoId E)"
    by (auto simp: manualSheet_fields)
  with assms(3) have f: "sheetId ` set ?new \<inter> sheetId ` set (sheets s) = {}" by blast
  show ?thesis
    unfolding b
    by (rule runTransaction_sheets [OF commitSheets_SetSheets_fresh [OF d f] commitLogs_SetSheets])
qed

lemma stockEdit_remove:
  assumes "diff < 0" and "- diff \<le> int (length (filter (matches mt len) (sheets s)))"
    and "inventory E = sheets s" and "distinct (map sheetId (sheets s))"
  shows "runTransaction (stockEditBody E mt len diff) s
           = (None, s\<lparr>sheets := filter (\<lambda>x. x \<notin> set (take (nat (- diff))
                 (selectFifo (sheets s) (matches mt len)))) (sheets s)\<rparr>)"
proof -
  let ?D = "take (nat (- diff)) (selectFifo (sheets s) (matches mt len))"
  have b: "stockEditBody E mt len diff = Inr (map (\<lambda>sh. DeleteSheet (sheetId sh)) ?D)"
    using assms(1,2,3) by (simp add: stockEditBody_def Let_def length_selectFifo slice0_def)
  have sub: "set ?D \<subseteq> set (sheets s)"
    using set_take_subset [of "nat (- diff)" "selectFifo (sheets s) (matches mt len)"]
    by (auto simp: selectFifo_def set_sortBy)
  have "commitSheets (map (\<lambda>sh. DeleteSheet (sheetId sh)) ?D) (sheets s)
          = Some (filter (\<lambda>x. x \<notin> set ?D) (sheets s))"
    by (simp only: commitSheets_DeleteSheets filter_ids_distinct [OF assms(4) sub])
  from runTransaction_sheets [OF this commitLogs_DeleteSheets] show ?thesis
    unfolding b .
qed

lemma stockEdit_short:
  assumes "diff < 0" and "int (length (filter (matches mt len) (sheets s))) < - diff"
    and "inventory E = sheets s"
  shows "runTransaction (stockEditBody E mt len diff) s
           = (Some (CannotRemove (- diff) (length (filter (matches mt len) (sheets s)))), s)"
  using assms by (simp add: stockEditBody_def Let_def length_selectFifo runTransaction_def)

text \<open>
  With the inventory array and the summary current, and fresh document ids, the handler sets
  the count of units on hand for the key to the new quantity.
\<close>

lemma stockEdit_when_current:
  assumes "inventory E = sheets s"
    and "currentQuantity E mt len = int (length (filter (matches mt len) (sheets s)))"
    and "distinct (map sheetId (sheets s))"
    and "inj (autoId E)"
    and "range (autoId E) \<inter> sheetId ` set (sheets s) = {}"
  shows "handleStockEdit E mt len newQuantity s =
          (if newQuantity = int (length (filter (matches mt len) (sheets s))) then (None, s)
           else if int (length (filter (matches mt len) (sheets s))) < newQuantity then
             (None, s\<lparr>sheets := sheets s @ map (\<lambda>k. manualSheet E mt len (autoId E k))
                 [0..<nat (newQuantity - int (length (filter (matches mt len) (sheets s))))]\<rparr>)
           else if 0 \<le> newQuantity then
             (None, s\<lparr>sheets := filter (\<lambda>x. x \<notin> set (take
                 (nat (int (length (filter (matches mt len) (sheets s))) - newQuantity))
                 (selectFifo (sheets s) (matches mt len)))) (sheets s)\<rparr>)
           else (Some (CannotRemove (int (length (filter (matches mt len) (sheets s))) - newQuantity)
                   (length (filter (matches mt len) (sheets s)))), s))
       \<and> (fst (handleStockEdit E mt len newQuantity s) = None \<longrightarrow>
            int (length (filter (matches mt len)
                  (sheets (snd (handleStockEdit E mt len newQuantity s))))) = newQuantity)
       \<and> status (manualSheet E mt len i) = OnHand
       \<and> costPerPound (manualSheet E mt len i) = 0
       \<and> supplier (manualSheet E mt len i) = ''Manual Edit''
       \<and> job (manualSheet E mt len i) = ''MODIFICATION: ADD''"
proof -
  let ?c = "int (length (filter (matches mt len) (sheets s)))"
  let ?d = "newQuantity - ?c"
  have h: "handleStockEdit E mt len newQuantity s =
      (if ?d = 0 then (None, s) else runTransaction (stockEditBody E mt len ?d) s)"
    by (simp add: handleStockEdit_def assms(2) Let_def)
  consider (same) "newQuantity = ?c" | (more) "?c < newQuantity"
    | (less) "newQuantity < ?c" "0 \<le> newQuantity" | (neg) "newQuantity < 0"
    by linarith
  then have r: "handleStockEdit E mt len newQuantity s =
          (if newQuantity = ?c then (None, s)
           else if ?c < newQuantity then
             (None, s\<lparr>sheets := sheets s @ map (\<lambda>k. manualSheet E mt len (autoId E k))
                 [0..<nat (newQuantity - ?c)]\<rparr>)
           else if 0 \<le> newQuantity then
             (None, s\<lparr>sheets := filter (\<lambda>x. x \<notin> set (take (nat (?c - newQuantity))
                 (selectFifo (sheets s) (matches mt len)))) (sheets s)\<rparr>)
           else (Some (CannotRemove (?c - newQuantity)
                   (length (filter (matches mt len) (sheets s)))), s))"
  proof cases
    case same
    with h show ?thesis by simp
  next
    case more
    then have "0 < ?d" by simp
    from stockEdit_add [OF this assms(4,5)] more show ?thesis by (simp add: h)
  next
    case less
    then have "?d < 0" "- ?d \<le> ?c" by simp_all
    from stockEdit_remove [OF this assms(1,3)] less show ?thesis by (simp add: h)
  next
    case neg
    then have "?d < 0" "?c < - ?d" by simp_all
    from stockEdit_short [OF this assms(1)] neg show ?thesis by (simp add: h)
  qed
  have c: "fst (handleStockEdit E mt len newQuantity s) = None \<longrightarrow>
            int (length (filter (matches mt len)
                  (sheets (snd (handleStockEdit E mt len newQuantity s))))) = newQuantity"
  proof (cases "newQuantity = ?c")
    case True
    with r show ?thesis by simp
  next
    case ne: False
    show ?thesis
    proof (cases "?c < newQuantity")
      case True
      have "filter (matches mt len) (map (\<lambda>k. manualSheet E mt len (autoId E k))
              [0..<nat (newQuantity - ?c)])
            = map (\<lambda>k. manualSheet E mt len (autoId E k)) [0..<nat (newQuantity - ?c)]"
        by (simp add: filter_map comp_def matches_def manualSheet_fields)
      with True ne r show ?thesis by simp
    next
      case nm: False
      show ?thesis
      proof (cases "0 \<le> newQuantity")
        case True
        have "nat (?c - newQuantity) \<le> length (filter (matches mt len) (sheets s))"
          using True by simp
        from removed_count [OF assms(3) this] True ne nm r show ?thesis by simp
      next
        case False
        with ne nm r show ?thesis by simp
      qed
    qed
  qed
  from r c show ?thesis by (simp add: manualSheet_fields)
qed

lemma stockEdit_remove_cached:
  assumes "diff < 0" and "- diff \<le> int (length (filter (matches mt len) (inventory E)))"
  shows "runTransaction (stockEditBody E mt len diff) s
           = (None, s\<lparr>sheets := filter (\<lambda>x. sheetId x \<notin> sheetId ` set (take (nat (- diff))
                 (selectFifo (inventory E) (matches mt len)))) (sheets s)\<rparr>)"
proof -
  let ?D = "take (nat (- diff)) (selectFifo (inventory E) (matches mt len))"
  have b: "stockEditBody E mt len diff = Inr (map (\<lambda>sh. DeleteSheet (sheetId sh)) ?D)"
    using assms by (simp add: stockEditBody_def Let_def length_selectFifo slice0_def)
  have "commitSheets (map (\<lambda>sh. DeleteSheet (sheetId sh)) ?D) (sheets s)
          = Some (filter (\<lambda>x. sheetId x \<notin> sheetId ` set ?D) (sheets s))"
    by (simp only: commitSheets_DeleteSheets)
  from runTransaction_sheets [OF this commitLogs_DeleteSheets] show ?thesis
    unfolding b .
qed

lemma stockEdit_short_cached:
  assumes "diff < 0" and "int (length (filter (matches mt len) (inventory E))) < - diff"
  shows "runTransaction (stockEditBody E mt len diff) s
           = (Some (CannotRemove (- diff) (length (filter (matches mt len) (inventory E)))), s)"
  using assms by (simp add: stockEditBody_def Let_def length_selectFifo runTransaction_def)

lemma example_autoId_inj: "inj (autoId (countingEnv pool))"
proof (rule injI)
  fix a b assume "autoId (countingEnv pool) a = autoId (countingEnv pool) b"
  then have "length (replicate (Suc a) CHR ''n'') = length (replicate (Suc b) CHR ''n'')"
    by (simp add: countingEnv_def exampleEnv_def)
  then show "a = b" by simp
qed

lemma example_ids:
  "autoId (countingEnv pool) 0 = ''n''" "autoId (countingEnv pool) (Suc 0) = ''nn''"
  by (simp_all add: countingEnv_def exampleEnv_def)

text \<open>
  C7, as stated, fails when the summary and the inventory array are behind the store.  With a
  summary and an array that show one unit on hand while the store holds three, a new quantity
  of 2 gives diff = 1, not 2 minus 3: the call succeeds, nothing is deleted, one unit is
  created and four are on hand.  With a summary and an array that show three units on hand
  while the store holds one, a new quantity of 2 gives diff = - 1: the call succeeds, deletes
  the store's only unit and none is on hand.
\<close>

theorem C7_stale_summary_counterexample:
  "length (filter (matches ''A16GA'' 96) threeOnHand) = 3
   \<and> currentQuantity (countingEnv oneOnHand) ''A16GA'' 96 = 1
   \<and> fst (handleStockEdit (countingEnv oneOnHand) ''A16GA'' 96 2
            \<lparr>sheets = threeOnHand, logs = []\<rparr>) = None
   \<and> map sheetId (filter (matches ''A16GA'' 96)
        (sheets (snd (handleStockEdit (countingEnv oneOnHand) ''A16GA'' 96 2
           \<lparr>sheets = threeOnHand, logs = []\<rparr>)))) = [''u1'', ''u2'', ''u3'', ''n'']
   \<and> length (filter (matches ''A16GA'' 96) oneOnHand) = 1
   \<and> currentQuantity (countingEnv threeOnHand) ''A16GA'' 96 = 3
   \<and> handleStockEdit (countingEnv threeOnHand) ''A16GA'' 96 2 \<lparr>sheets = oneOnHand, logs = []\<rparr>
       = (None, \<lparr>sheets = [], logs = []\<rparr>)"
  by (simp add: handleStockEdit_def stockEditBody_def currentQuantity_def countingEnv_def
      threeOnHand_def manualSheet_def handler_defs example_defs)

text \<open>
  C7, amended.  The handler computes diff as the new quantity minus the count that the
  inventory summary it closes over holds for the key (0 when it holds none), and selects the
  units to remove from the inventory array it closes over; it does not read the store.
  A diff of 0 writes nothing.  A positive diff, with fresh document ids, appends exactly diff
  new units, each on hand, at cost 0, with supplier "Manual Edit" and job "MODIFICATION: ADD".
  A negative diff fails without a write when the array shows fewer than |diff| units on hand
  for the key, and otherwise deletes from the store the documents of the first |diff| units
  of the FIFO selection over the array, marking none Used and leaving every other document
  as it was.  When the summary and the array are current (the array is the store's inventory
  collection with distinct ids, the summary its count of units on hand for the key), the call
  succeeds for every non-negative new quantity, fails for a negative one, and on success the
  count of units on hand for the key is the new quantity.
\<close>

theorem C7_manual_stock_adjust:
  "(newQuantity = currentQuantity E mt len \<longrightarrow>
      handleStockEdit E mt len newQuantity s = (None, s))
   \<and> (currentQuantity E mt len < newQuantity \<and> inj (autoId E)
        \<and> range (autoId E) \<inter> sheetId ` set (sheets s) = {} \<longrightarrow>
      handleStockEdit E mt len newQuantity s =
        (None, s\<lparr>sheets := sheets s @ map (\<lambda>k. manualSheet E mt len (autoId E k))
                 [0..<nat (newQuantity - currentQuantity E mt len)]\<rparr>))
   \<and> (newQuantity < currentQuantity E mt len
        \<and> currentQuantity E mt len - newQuantity
             \<le> int (length (filter (matches mt len) (inventory E))) \<longrightarrow>
      handleStockEdit E mt len newQuantity s =
        (None, s\<lparr>sheets := filter (\<lambda>x. sheetId x \<notin> sheetId ` set (take
                 (nat (currentQuantity E mt len - newQuantity))
                 (selectFifo (inventory E) (matches mt len)))) (sheets s)\<rparr>))
   \<and> (newQuantity < currentQuantity E mt len
        \<and> int (length (filter (matches mt len) (inventory E)))
             < currentQuantity E mt len - newQuantity \<longrightarrow>
      handleStockEdit E mt len newQuantity s =
        (Some (CannotRemove (currentQuantity E mt len - newQuantity)
                 (length (filter (matches mt len) (inventory E)))), s))
   \<and> (inventory E = sheets s
        \<and> currentQuantity E mt len = int (length (filter (matches mt len) (sheets s)))
        \<and> distinct (map sheetId (sheets s))
        \<and> inj (autoId E)
        \<and> range (autoId E) \<inter> sheetId ` set (sheets s) = {} \<longrightarrow>
      (fst (handleStockEdit E mt len newQuantity s) = None) = (0 \<le> newQuantity)
      \<and> (fst (handleStockEdit E mt len newQuantity s) = None \<longrightarrow>
            int (length (filter (matches mt len)
                  (sheets (snd (handleStockEdit E mt len newQuantity s))))) = newQuantity))
   \<and> status (manualSheet E mt len i) = OnHand
   \<and> costPerPound (manualSheet E mt len i) = 0
   \<and> supplier (manualSheet E mt len i) = ''Manual Edit''
   \<and> job (manualSheet E mt len i) = ''MODIFICATION: ADD''"
proof -
  let ?cur = "currentQuantity E mt len"
  let ?d = "newQuantity - ?cur"
  let ?r = "handleStockEdit E mt len newQuantity s"
  have h: "?r = (if ?d = 0 then (None, s) else runTransaction (stockEditBody E mt len ?d) s)"
    by (simp add: handleStockEdit_def Let_def)
  have same: "newQuantity = ?cur \<longrightarrow> ?r = (None, s)"
    by (simp add: handleStockEdit_def Let_def)
  have more: "?cur < newQuantity \<and> inj (autoId E)
        \<and> range (autoId E) \<inter> sheetId ` set (sheets s) = {} \<longrightarrow>
      ?r = (None, s\<lparr>sheets := sheets s @ map (\<lambda>k. manualSheet E mt len (autoId E k))
                 [0..<nat ?d]\<rparr>)"
  proof
    assume a: "?cur < newQuantity \<and> inj (autoId E)
        \<and> range (autoId E) \<inter> sheetId ` set (sheets s) = {}"
    then have "0 < ?d" by simp
    from stockEdit_add [OF this, of E s mt len] a show
      "?r = (None, s\<lparr>sheets := sheets s @ map (\<lambda>k. manualSheet E mt len (autoId E k))
                 [0..<nat ?d]\<rparr>)"
      by (simp add: h)
  qed
  have less: "newQuantity < ?cur
        \<and> ?cur - newQuantity \<le> int (length (filter (matches mt len) (inventory E))) \<longrightarrow>
      ?r = (None, s\<lparr>sheets := filter (\<lambda>x. sheetId x \<notin> sheetId ` set (take
                 (nat (?cur - newQuantity))
                 (selectFifo (inventory E) (matches mt len)))) (sheets s)\<rparr>)"
  proof
    assume a: "newQuantity < ?cur
        \<and> ?cur - newQuantity \<le> int (length (filter (matches mt len) (inventory E)))"
    then have "?d < 0" "- ?d \<le> int (length (filter (matches mt len) (inventory E)))"
      by simp_all
    from stockEdit_remove_cached [OF this, of s] a show
      "?r = (None, s\<lparr>sheets := filter (\<lambda>x. sheetId x \<notin> sheetId ` set (take
                 (nat (?cur - newQuantity))
                 (selectFifo (inventory E) (matches mt len)))) (sheets s)\<rparr>)"
      by (simp add: h)
  qed
  have short: "newQuantity < ?cur
        \<and> int (length (filter (matches mt len) (inventory E))) < ?cur - newQuantity \<longrightarrow>
      ?r = (Some (CannotRemove (?cur - newQuantity)
                 (length (filter (matches mt len) (inventory E)))), s)"
  proof
    assume a: "newQuantity < ?cur
        \<and> int (length (filter (matches mt len) (inventory E))) < ?cur - newQuantity"
    then have "?d < 0" "int (length (filter (matches mt len) (inventory E))) < - ?d"
      by simp_all
    from stockEdit_short_cached [OF this, of s] a show
      "?r = (Some (CannotRemove (?cur - newQuantity)
                 (length (filter (matches mt len) (inventory E)))), s)"
      by (simp add: h)
  qed
  have current: "inventory E = sheets s
        \<and> ?cur = int (length (filter (matches mt len) (sheets s)))
        \<and> distinct (map sheetId (sheets s))
        \<and> inj (autoId E)
        \<and> range (autoId E) \<inter> sheetId ` set (sheets s) = {} \<longrightarrow>
      (fst ?r = None) = (0 \<le> newQuantity)
      \<and> (fst ?r = None \<longrightarrow>
            int (length (filter (matches mt len) (sheets (snd ?r)))) = newQuantity)"
  proof
    assume a: "inventory E = sheets s
        \<and> ?cur = int (length (filter (matches mt len) (sheets s)))
        \<and> distinct (map sheetId (sheets s))
        \<and> inj (autoId E)
        \<and> range (autoId E) \<inter> sheetId ` set (sheets s) = {}"
    then have a1: "inventory E = sheets s"
      and a2: "?cur = int (length (filter (matches mt len) (sheets s)))"
      and a3: "distinct (map sheetId (sheets s))"
      and a4: "inj (autoId E)"
      and a5: "range (autoId E) \<inter> sheetId ` set (sheets s) = {}" by simp_all
    note w = stockEdit_when_current [OF a1 a2 a3 a4 a5, of newQuantity]
    from w have e: "(fst ?r = None) = (0 \<le> newQuantity)"
      by (simp split: if_splits)
    from w have "fst ?r = None \<longrightarrow>
            int (length (filter (matches mt len) (sheets (snd ?r)))) = newQuantity"
      by blast
    with e show "(fst ?r = None) = (0 \<le> newQuantity)
      \<and> (fst ?r = None \<longrightarrow>
            int (length (filter (matches mt len) (sheets (snd ?r)))) = newQuantity)" ..
  qed
  from same more less short current show ?thesis
    by (simp only: manualSheet_fields)
qed

theorem C7_manual_stock_adjust_witness:
  "inventory (countingEnv threeOnHand) = sheets \<lparr>sheets = threeOnHand, logs = []\<rparr>
   \<and> currentQuantity (countingEnv threeOnHand) ''A16GA'' 96 = 3
   \<and> distinct (map sheetId threeOnHand)
   \<and> handleStockEdit (countingEnv threeOnHand) ''A16GA'' 96 3 \<lparr>sheets = threeOnHand, logs = []\<rparr>
       = (None, \<lparr>sheets = threeOnHand, logs = []\<rparr>)
   \<and> handleStockEdit (countingEnv threeOnHand) ''A16GA'' 96 1 \<lparr>sheets = threeOnHand, logs = []\<rparr>
       = (None, \<lparr>sheets = [exampleSheet ''u3'' ''A16GA'' 96 30 OnHand], logs = []\<rparr>)
   \<and> map sheetId (sheets (snd (handleStockEdit (countingEnv threeOnHand) ''A16GA'' 96 5
         \<lparr>sheets = threeOnHand, logs = []\<rparr>))) = [''u1'', ''u2'', ''u3'', ''n'', ''nn'']
   \<and> int (length (filter (matches ''A16GA'' 96)
         (sheets (snd (handleStockEdit (countingEnv threeOnHand) ''A16GA'' 96 5
            \<lparr>sheets = threeOnHand, logs = []\<rparr>))))) = 5
   \<and> handleStockEdit (countingEnv threeOnHand) ''A16GA'' 96 (- 1)
         \<lparr>sheets = threeOnHand, logs = []\<rparr>
       = (Some (CannotRemove 4 3), \<lparr>sheets = threeOnHand, logs = []\<rparr>)"
proof -
  let ?E = "countingEnv threeOnHand"
  let ?s = "\<lparr>sheets = threeOnHand, logs = []\<rparr>"
  have f: "filter (matches ''A16GA'' 96) threeOnHand = threeOnHand"
    by (simp add: threeOnHand_def matches_def exampleSheet_def)
  have l: "length threeOnHand = 3" by (simp add: threeOnHand_def)
  have i: "inventory ?E = threeOnHand" by (simp add: countingEnv_def exampleEnv_def)
  have h1: "inventory ?E = sheets ?s" by (simp add: i)
  have q: "currentQuantity ?E ''A16GA'' 96 = 3"
    by (simp add: currentQuantity_def countingEnv_def f l)
  have h2: "currentQuantity ?E ''A16GA'' 96
            = int (length (filter (matches ''A16GA'' 96) (sheets ?s)))"
    by (simp add: q f l)
  have h3: "distinct (map sheetId (sheets ?s))"
    by (simp add: threeOnHand_def exampleSheet_def)
  have h5: "range (autoId ?E) \<inter> sheetId ` set (sheets ?s) = {}"
    by (auto simp: countingEnv_def exampleEnv_def threeOnHand_def exampleSheet_def)
  have sel: "take 2 (selectFifo threeOnHand (matches ''A16GA'' 96))
             = [exampleSheet ''u1'' ''A16GA'' 96 10 OnHand, exampleSheet ''u2'' ''A16GA'' 96 20 OnHand]"
    by (simp add: selectFifo_def f) (simp add: threeOnHand_def byCreatedAt_def exampleSheet_def)
  have up: "[0..<2] = [0, Suc 0]" by (simp add: upt_rec numeral_2_eq_2)
  have e3: "handleStockEdit ?E ''A16GA'' 96 3 ?s = (None, ?s)"
    using C7_manual_stock_adjust [where E = ?E and mt = "''A16GA''" and len = 96
        and newQuantity = 3 and s = ?s]
    by (simp add: q)
  have e1: "handleStockEdit ?E ''A16GA'' 96 1 ?s
       = (None, \<lparr>sheets = [exampleSheet ''u3'' ''A16GA'' 96 30 OnHand], logs = []\<rparr>)"
    using C7_manual_stock_adjust [where E = ?E and mt = "''A16GA''" and len = 96
        and newQuantity = 1 and s = ?s]
    by (simp add: q i f l sel) (simp add: threeOnHand_def exampleSheet_def)
  note t5 = C7_manual_stock_adjust [where E = ?E and mt = "''A16GA''" and len = 96
        and newQuantity = 5 and s = ?s]
  from t5 example_autoId_inj [of threeOnHand] h5
  have e5: "handleStockEdit ?E ''A16GA'' 96 5 ?s
       = (None, \<lparr>sheets = threeOnHand @ [manualSheet ?E ''A16GA'' 96 ''n'',
                                           manualSheet ?E ''A16GA'' 96 ''nn''], logs = []\<rparr>)"
    by (simp add: q up example_ids)
  have b: "map sheetId (sheets (snd (handleStockEdit ?E ''A16GA'' 96 5 ?s)))
       = [''u1'', ''u2'', ''u3'', ''n'', ''nn'']"
    unfolding e5 by (simp add: manualSheet_fields) (simp add: threeOnHand_def exampleSheet_def)
  from t5 h1 h2 h3 example_autoId_inj [of threeOnHand] h5 e5
  have c: "int (length (filter (matches ''A16GA'' 96)
         (sheets (snd (handleStockEdit ?E ''A16GA'' 96 5 ?s))))) = 5"
    by simp
  have n: "handleStockEdit ?E ''A16GA'' 96 (- 1) ?s = (Some (CannotRemove 4 3), ?s)"
    using C7_manual_stock_adjust [where E = ?E and mt = "''A16GA''" and len = 96
        and newQuantity = "- 1" and s = ?s]
    by (simp add: q i f l)
  from h1 q h3 e3 e1 b c n show ?thesis by simp
qed

section \<open>Preservation of the link\<close>

lemma unitOk_iff:
  "unitOk ls u =
     (\<forall>l. usageLogId u = Some l \<longrightarrow>
        status u = Used
        \<and> (\<exists>r \<in> set ls. logId r = l \<and> logStatus r \<noteq> Some Scheduled
              \<and> Some (sheetId u) \<in> detailId ` set (details r)))"
  by (auto simp: unitOk_def list_ex_iff split: option.splits)

lemma unitOk_unlinked: "usageLogId u = None \<Longrightarrow> unitOk ls u"
  by (simp add: unitOk_def)

lemma unitOk_mono: "unitOk ls u \<Longrightarrow> set ls \<subseteq> set ls' \<Longrightarrow> unitOk ls' u"
  unfolding unitOk_iff by blast

lemma ledgerInvariant_iff:
  "ledgerInvariant s = (distinct (map logId (logs s)) \<and> (\<forall>u \<in> set (sheets s). unitOk (logs s) u))"
  by (simp add: ledgerInvariant_def list_all_iff)

lemma unitOk_linked: "unitOk (logs s) u \<Longrightarrow> (usageLogId u \<noteq> None) = linked s u"
proof (cases "usageLogId u")
  case None
  then show ?thesis by (simp add: linked_def)
next
  case (Some l)
  assume "unitOk (logs s) u"
  with Some obtain r where "status u = Used" "r \<in> set (logs s)" "logId r = l"
    "Some (sheetId u) \<in> detailId ` set (details r)"
    unfolding unitOk_iff by blast
  with Some show ?thesis by (auto simp: linked_def list_ex_iff)
qed

lemma ledgerInvariant_unitsLinked:
  assumes "ledgerInvariant s"
  shows "unitsLinked s"
  unfolding unitsLinked_def list_all_iff
proof
  fix u assume "u \<in> set (sheets s)"
  with assms have "unitOk (logs s) u" by (simp add: ledgerInvariant_iff)
  then show "(usageLogId u \<noteq> None) = linked s u" by (rule unitOk_linked)
qed

lemma commitSheets_preserves:
  assumes "commitSheets ws xs = Some ys"
    and "\<forall>x \<in> set xs. Q x"
    and "\<And>sh. SetSheet sh \<in> set ws \<Longrightarrow> Q sh"
    and "\<And>i u x. UpdateSheet i u \<in> set ws \<Longrightarrow> Q x \<Longrightarrow> sheetId x = i \<Longrightarrow> Q (applySheetUpdate u x)"
  shows "\<forall>y \<in> set ys. Q y"
  using assms
proof (induction ws arbitrary: xs)
  case Nil
  then show ?case by simp
next
  case (Cons w ws)
  from Cons.prems(1) obtain zs where zs: "applyToSheets w xs = Some zs"
    and rest: "commitSheets ws zs = Some ys"
    by (auto split: option.splits)
  have zsQ: "\<forall>z \<in> set zs. Q z"
  proof (cases w)
    case (SetSheet sh)
    with Cons.prems(3) have "Q sh" by simp
    with SetSheet zs Cons.prems(2) show ?thesis by (auto split: if_splits)
  next
    case (UpdateSheet i u)
    have step: "Q (applySheetUpdate u x)" if "Q x" "sheetId x = i" for x
      using Cons.prems(4) [of i u x] UpdateSheet that by simp
    from UpdateSheet zs
    have "zs = map (\<lambda>x. if sheetId x = i then applySheetUpdate u x else x) xs"
      by (simp split: if_splits)
    with step Cons.prems(2) show ?thesis by auto
  next
    case (DeleteSheet i)
    with zs Cons.prems(2) show ?thesis by auto
  qed (use zs Cons.prems(2) in auto)
  show ?case
  proof (rule Cons.IH [OF rest zsQ])
    fix sh assume "SetSheet sh \<in> set ws"
    then show "Q sh" using Cons.prems(3) [of sh] by simp
  next
    fix i u x assume "UpdateSheet i u \<in> set ws" "Q x" "sheetId x = i"
    then show "Q (applySheetUpdate u x)" using Cons.prems(4) [of i u x] by simp
  qed
qed

lemma commitLogs_sheetWrites: "\<forall>w \<in> set ws. sheetWrite w \<Longrightarrow> commitLogs ws ls = Some ls"
proof (induction ws)
  case Nil
  then show ?case by simp
next
  case (Cons w ws)
  then show ?case by (cases w) auto
qed

lemma commitSheets_logWrites: "\<forall>w \<in> set ws. \<not> sheetWrite w \<Longrightarrow> commitSheets ws xs = Some xs"
proof (induction ws)
  case Nil
  then show ?case by simp
next
  case (Cons w ws)
  then show ?case by (cases w) auto
qed

lemma commit_Some:
  "commit ws s = Some s' \<Longrightarrow>
   commitSheets ws (sheets s) = Some (sheets s') \<and> commitLogs ws (logs s) = Some (logs s')"
  by (auto simp: commit_def split: option.splits)

lemma runTransaction_cases:
  assumes "P s"
    and "\<And>ws s'. body = Inr ws \<Longrightarrow> commit ws s = Some s' \<Longrightarrow> P s'"
  shows "P (snd (runTransaction body s))"
  using assms by (auto simp: runTransaction_def split: sum.splits option.splits)

text \<open>Writes that touch no record and set no usageLogId.\<close>

lemma sheet_writes_preserve:
  assumes inv: "ledgerInvariant s"
    and ws: "\<forall>w \<in> set ws. sheetWrite w"
    and sets: "\<And>sh. SetSheet sh \<in> set ws \<Longrightarrow> usageLogId sh = None"
    and upds: "\<And>i u x. UpdateSheet i u \<in> set ws \<Longrightarrow> x \<in> set (sheets s) \<Longrightarrow> sheetId x = i \<Longrightarrow>
                 usageLogId x = None"
    and recv: "\<And>i u. UpdateSheet i u \<in> set ws \<Longrightarrow> \<exists>d. u = Receive d"
    and c: "commit ws s = Some s'"
  shows "ledgerInvariant s'"
proof -
  from commit_Some [OF c] commitLogs_sheetWrites [OF ws]
  have l: "logs s' = logs s" and sh: "commitSheets ws (sheets s) = Some (sheets s')" by auto
  let ?T = "{i. \<exists>u. UpdateSheet i u \<in> set ws}"
  let ?Q = "\<lambda>x. unitOk (logs s) x \<and> (sheetId x \<in> ?T \<longrightarrow> usageLogId x = None)"
  have "\<forall>y \<in> set (sheets s'). ?Q y"
  proof (rule commitSheets_preserves [OF sh])
    show "\<forall>x \<in> set (sheets s). ?Q x"
      using inv upds by (auto simp: ledgerInvariant_iff)
  next
    fix sh assume "SetSheet sh \<in> set ws"
    from sets [OF this] show "?Q sh" by (simp add: unitOk_unlinked)
  next
    fix i u x assume u: "UpdateSheet i u \<in> set ws" and q: "?Q x" and i: "sheetId x = i"
    from recv [OF u] obtain d where d: "u = Receive d" by blast
    from u i q have "usageLogId x = None" by auto
    with d show "?Q (applySheetUpdate u x)" by (simp add: unitOk_def)
  qed
  with inv l show ?thesis by (simp add: ledgerInvariant_iff)
qed

lemma stockEdit_preserves:
  assumes "ledgerInvariant s"
  shows "ledgerInvariant (snd (handleStockEdit E mt len n s))"
proof -
  have "ledgerInvariant (snd (runTransaction (stockEditBody E mt len d) s))" for d
  proof (rule runTransaction_cases [where P = ledgerInvariant, OF assms])
    fix ws s' assume b: "stockEditBody E mt len d = Inr ws" and c: "commit ws s = Some s'"
    from b have ws: "ws = map (\<lambda>k. SetSheet (manualSheet E mt len (autoId E k))) [0..<nat d]
        \<or> ws = map (\<lambda>sh. DeleteSheet (sheetId sh))
                 (slice0 \<bar>d\<bar> (selectFifo (inventory E) (matches mt len)))"
      by (auto simp: stockEditBody_def Let_def split: if_splits)
    show "ledgerInvariant s'"
    proof (rule sheet_writes_preserve [OF assms _ _ _ _ c])
      show "\<forall>w \<in> set ws. sheetWrite w" using ws by auto
    next
      fix sh assume "SetSheet sh \<in> set ws"
      with ws show "usageLogId sh = None" by (auto simp: manualSheet_def)
    next
      fix i u x assume "UpdateSheet i u \<in> set ws"
      with ws show "usageLogId x = None" by auto
    next
      fix i u assume "UpdateSheet i u \<in> set ws"
      with ws show "\<exists>d. u = Receive d" by auto
    qed
  qed
  with assms show ?thesis by (simp add: handleStockEdit_def Let_def)
qed

lemma addOrEditOrder_preserves:
  assumes "ledgerInvariant s"
  shows "ledgerInvariant (snd (handleAddOrEditOrder E jobs og s))"
  unfolding handleAddOrEditOrder_def
proof (rule runTransaction_cases [where P = ledgerInvariant, OF assms])
  fix ws s' assume b: "addOrEditOrderBody E jobs og = Inr ws" and c: "commit ws s = Some s'"
  from b have ws: "set ws \<subseteq> range DeleteSheet \<union> SetSheet ` set (createdSheets E jobs og)"
    by (auto simp: addOrEditOrderBody_def split: option.splits)
  show "ledgerInvariant s'"
  proof (rule sheet_writes_preserve [OF assms _ _ _ _ c])
    show "\<forall>w \<in> set ws. sheetWrite w" using ws by auto
  next
    fix sh assume "SetSheet sh \<in> set ws"
    with ws have "sh \<in> set (createdSheets E jobs og)" by auto
    then show "usageLogId sh = None" by (auto simp: createdSheets_def orderSheet_def)
  next
    fix i u x assume "UpdateSheet i u \<in> set ws"
    with ws show "usageLogId x = None" by auto
  next
    fix i u assume "UpdateSheet i u \<in> set ws"
    with ws show "\<exists>d. u = Receive d" by auto
  qed
qed

lemma deleteInventoryGroup_preserves:
  assumes "ledgerInvariant s"
  shows "ledgerInvariant (snd (handleDeleteInventoryGroup og s))"
proof -
  have "ledgerInvariant (snd (runTransaction (Inr (map (\<lambda>d. DeleteSheet (sheetId d)) D)) s))"
    for D :: "sheet list"
  proof (rule runTransaction_cases [where P = ledgerInvariant, OF assms])
    fix ws s' assume b: "Inr (map (\<lambda>d. DeleteSheet (sheetId d)) D) = (Inr ws :: error + write_op list)"
      and c: "commit ws s = Some s'"
    from b have ws: "ws = map (\<lambda>d. DeleteSheet (sheetId d)) D" by simp
    show "ledgerInvariant s'"
      by (rule sheet_writes_preserve [OF assms _ _ _ _ c]) (use ws in auto)
  qed
  with assms show ?thesis
    by (simp add: handleDeleteInventoryGroup_def commitBatch_def split: option.splits)
qed

lemma receiveOrder_preserves:
  assumes inv: "ledgerInvariant s"
    and app: "applicable E (ReceiveOrder g) s"
  shows "ledgerInvariant (snd (handleReceiveOrder E g s))"
  unfolding handleReceiveOrder_def commitBatch_def
proof (rule runTransaction_cases [where P = ledgerInvariant, OF inv])
  fix ws s'
  assume b: "Inr (map (\<lambda>d. UpdateSheet (sheetId d) (Receive (utcDay (now E))))
                 (filter (\<lambda>d. sheetId d \<noteq> []) (groupDetails g))) = (Inr ws :: error + write_op list)"
    and c: "commit ws s = Some s'"
  from b have ws: "ws = map (\<lambda>d. UpdateSheet (sheetId d) (Receive (utcDay (now E))))
                 (filter (\<lambda>d. sheetId d \<noteq> []) (groupDetails g))" by simp
  show "ledgerInvariant s'"
  proof (rule sheet_writes_preserve [OF inv _ _ _ _ c])
    show "\<forall>w \<in> set ws. sheetWrite w" using ws by auto
  next
    fix sh assume "SetSheet sh \<in> set ws"
    with ws show "usageLogId sh = None" by auto
  next
    fix i u x assume u: "UpdateSheet i u \<in> set ws" and x: "x \<in> set (sheets s)" and i: "sheetId x = i"
    from u ws i have "sheetId x \<in> sheetId ` set (groupDetails g)" by auto
    with app x have "status x = Ordered" by (auto simp: list_all_iff)
    moreover from inv x have "unitOk (logs s) x" by (simp add: ledgerInvariant_iff)
    ultimately show "usageLogId x = None" by (cases "usageLogId x") (auto simp: unitOk_iff)
  next
    fix i u assume "UpdateSheet i u \<in> set ws"
    with ws show "\<exists>d. u = Receive d" by auto
  qed
qed

lemma deleteLog_preserves:
  assumes inv: "ledgerInvariant s"
    and app: "applicable E (DeleteRecord i) s"
  shows "ledgerInvariant (snd (handleDeleteLog i s))"
proof -
  have r: "handleDeleteLog i s = (None, s\<lparr>logs := filter (\<lambda>x. logId x \<noteq> i) (logs s)\<rparr>)"
    by (simp add: handleDeleteLog_def commitBatch_def runTransaction_def commit_def)
  have "unitOk (filter (\<lambda>x. logId x \<noteq> i) (logs s)) u" if u: "u \<in> set (sheets s)" for u
  proof -
    from inv u have ok: "unitOk (logs s) u" by (simp add: ledgerInvariant_iff)
    from app u have ni: "usageLogId u \<noteq> Some i" by (simp add: list_all_iff)
    show ?thesis
      unfolding unitOk_iff
    proof (intro allI impI)
      fix l assume l: "usageLogId u = Some l"
      with ok obtain r where r: "status u = Used" "r \<in> set (logs s)" "logId r = l"
        "logStatus r \<noteq> Some Scheduled" "Some (sheetId u) \<in> detailId ` set (details r)"
        unfolding unitOk_iff by blast
      from l ni r(3) have "logId r \<noteq> i" by auto
      with r show "status u = Used \<and> (\<exists>r \<in> set (filter (\<lambda>x. logId x \<noteq> i) (logs s)). logId r = l
          \<and> logStatus r \<noteq> Some Scheduled \<and> Some (sheetId u) \<in> detailId ` set (details r))"
        by auto
    qed
  qed
  with inv show ?thesis by (simp add: r ledgerInvariant_iff distinct_map_filter)
qed

section \<open>Records written under new ids\<close>

lemma setLogs_append: "setLogs (ws @ vs) = setLogs ws @ setLogs vs"
  by (induction ws rule: setLogs.induct) auto

lemma setLogs_sheetWrites: "\<forall>w \<in> set ws. sheetWrite w \<Longrightarrow> setLogs ws = []"
  by (induction ws rule: setLogs.induct) auto

lemma commitLogs_fresh_sets:
  assumes "\<forall>w \<in> set ws. logSetOrSheetWrite w"
    and "distinct (map logId (setLogs ws))"
    and "logId ` set (setLogs ws) \<inter> logId ` set ls = {}"
  shows "commitLogs ws ls = Some (ls @ setLogs ws)"
  using assms
proof (induction ws arbitrary: ls)
  case Nil
  then show ?case by simp
next
  case (Cons w ws)
  show ?case
  proof (cases w)
    case (SetLog l)
    from Cons.prems SetLog have f: "\<not> hasLog (logId l) ls" by (auto simp: hasLog_def)
    from Cons.prems SetLog have "\<forall>w \<in> set ws. logSetOrSheetWrite w"
      and "distinct (map logId (setLogs ws))"
      and "logId ` set (setLogs ws) \<inter> logId ` set (ls @ [l]) = {}" by auto
    from Cons.IH [OF this] SetLog f show ?thesis by simp
  next
    case (UpdateLog i u)
    with Cons.prems show ?thesis by simp
  next
    case (DeleteLog i)
    with Cons.prems show ?thesis by simp
  next
    case (SetSheet sh)
    with Cons.prems Cons.IH [of ls] show ?thesis by simp
  next
    case (UpdateSheet i u)
    with Cons.prems Cons.IH [of ls] show ?thesis by simp
  next
    case (DeleteSheet i)
    with Cons.prems Cons.IH [of ls] show ?thesis by simp
  qed
qed

text \<open>The writes of one job of an immediate batch.\<close>

lemma markUsed_writes:
  "set (map (markUsedFor E l j) used) = (\<lambda>sh. UpdateSheet (sheetId sh)
      (MarkUsed l (jobLabel (jobName j)) (customer j) (now E))) ` set used"
  by (auto simp: markUsedFor_def)

lemma useStockJobs_kinds:
  "useStockJobs E opts n jobs = Inr ws \<Longrightarrow>
   (\<forall>w \<in> set ws. logSetOrSheetWrite w) \<and> (\<forall>sh. SetSheet sh \<notin> set ws)"
  by (induction jobs arbitrary: n ws)
     (auto split: if_splits sum.splits option.splits simp: markUsedFor_def)

lemma useStockJobs_ids:
  "useStockJobs E opts n jobs = Inr ws \<Longrightarrow> logId ` set (setLogs ws) \<subseteq> autoId E ` {n..}"
proof (induction jobs arbitrary: n ws)
  case Nil
  then show ?case by simp
next
  case (Cons j jobs)
  have up: "autoId E ` {Suc n..} \<subseteq> autoId E ` {n..}" by auto
  have mk: "setLogs (map (markUsedFor E l j) used) = []" for l used
    by (rule setLogs_sheetWrites) (auto simp: markUsedFor_def)
  show ?case
  proof (cases "isScheduled opts")
    case True
    show ?thesis
    proof (cases "scheduledDetails E (items j) = []")
      case True
      with \<open>isScheduled opts\<close> Cons.prems Cons.IH [of n ws] show ?thesis by simp
    next
      case False
      with \<open>isScheduled opts\<close> Cons.prems obtain d ws' where
        ws': "useStockJobs E opts (Suc n) jobs = Inr ws'"
        and ws: "ws = SetLog (scheduledEntry E d (autoId E n) j) # ws'"
        by (auto split: sum.splits option.splits)
      from Cons.IH [OF ws'] up ws show ?thesis by (auto simp: scheduledEntry_def)
    qed
  next
    case False
    with Cons.prems obtain used ws' where
      ws': "useStockJobs E opts (Suc n) jobs = Inr ws'"
      and ws: "ws = map (markUsedFor E (autoId E n) j) used
                 @ (if used \<noteq> [] then [SetLog (completedEntry E (autoId E n) j used)] else [])
                 @ ws'"
      by (auto split: sum.splits)
    from Cons.IH [OF ws'] up ws show ?thesis
      by (auto simp: setLogs_append mk completedEntry_def)
  qed
qed

lemma useStockJobs_distinct:
  "useStockJobs E opts n jobs = Inr ws \<Longrightarrow> inj (autoId E) \<Longrightarrow> distinct (map logId (setLogs ws))"
proof (induction jobs arbitrary: n ws)
  case Nil
  then show ?case by simp
next
  case (Cons j jobs)
  have mk: "setLogs (map (markUsedFor E l j) used) = []" for l used
    by (rule setLogs_sheetWrites) (auto simp: markUsedFor_def)
  have new: "autoId E n \<notin> logId ` set (setLogs ws')"
    if "useStockJobs E opts (Suc n) jobs = Inr ws'" for ws'
  proof
    assume "autoId E n \<in> logId ` set (setLogs ws')"
    with useStockJobs_ids [OF that] obtain k where "Suc n \<le> k" "autoId E n = autoId E k" by auto
    with Cons.prems(2) show False by (auto dest: injD)
  qed
  show ?case
  proof (cases "isScheduled opts")
    case True
    show ?thesis
    proof (cases "scheduledDetails E (items j) = []")
      case True
      with \<open>isScheduled opts\<close> Cons.prems Cons.IH [of n ws] show ?thesis by simp
    next
      case False
      with \<open>isScheduled opts\<close> Cons.prems obtain d ws' where
        ws': "useStockJobs E opts (Suc n) jobs = Inr ws'"
        and ws: "ws = SetLog (scheduledEntry E d (autoId E n) j) # ws'"
        by (auto split: sum.splits option.splits)
      from Cons.IH [OF ws' Cons.prems(2)] new [OF ws'] ws show ?thesis
        by (auto simp: scheduledEntry_def)
    qed
  next
    case False
    with Cons.prems obtain used ws' where
      ws': "useStockJobs E opts (Suc n) jobs = Inr ws'"
      and ws: "ws = map (markUsedFor E (autoId E n) j) used
                 @ (if used \<noteq> [] then [SetLog (completedEntry E (autoId E n) j used)] else [])
                 @ ws'"
      by (auto split: sum.splits)
    from Cons.IH [OF ws' Cons.prems(2)] new [OF ws'] ws show ?thesis
      by (auto simp: setLogs_append mk completedEntry_def)
  qed
qed

lemma useStockJobs_covered:
  "useStockJobs E opts n jobs = Inr ws \<Longrightarrow> UpdateSheet i u \<in> set ws \<Longrightarrow>
   \<exists>l j c t r. u = MarkUsed l j c t \<and> r \<in> set (setLogs ws) \<and> logId r = l
      \<and> logStatus r \<noteq> Some Scheduled \<and> Some i \<in> detailId ` set (details r)"
proof (induction jobs arbitrary: n ws)
  case Nil
  then show ?case by simp
next
  case (Cons j jobs)
  have mk: "setLogs (map (markUsedFor E l j) used) = []" for l used
    by (rule setLogs_sheetWrites) (auto simp: markUsedFor_def)
  show ?case
  proof (cases "isScheduled opts")
    case True
    show ?thesis
    proof (cases "scheduledDetails E (items j) = []")
      case True
      with \<open>isScheduled opts\<close> Cons.prems Cons.IH [of n ws] show ?thesis by simp
    next
      case False
      with \<open>isScheduled opts\<close> Cons.prems obtain d ws' where
        ws': "useStockJobs E opts (Suc n) jobs = Inr ws'"
        and ws: "ws = SetLog (scheduledEntry E d (autoId E n) j) # ws'"
        by (auto split: sum.splits option.splits)
      from ws Cons.prems(2) have "UpdateSheet i u \<in> set ws'" by simp
      from Cons.IH [OF ws' this] ws show ?thesis by auto
    qed
  next
    case False
    with Cons.prems obtain used ws' where
      ws': "useStockJobs E opts (Suc n) jobs = Inr ws'"
      and ws: "ws = map (markUsedFor E (autoId E n) j) used
                 @ (if used \<noteq> [] then [SetLog (completedEntry E (autoId E n) j used)] else [])
                 @ ws'"
      by (auto split: sum.splits)
    from ws Cons.prems(2) consider
      (here) "UpdateSheet i u \<in> set (map (markUsedFor E (autoId E n) j) used)"
      | (later) "UpdateSheet i u \<in> set ws'"
      by (auto split: if_splits)
    then show ?thesis
    proof cases
      case here
      then obtain sh where sh: "sh \<in> set used" and i: "i = sheetId sh"
        and u: "u = MarkUsed (autoId E n) (jobLabel (jobName j)) (customer j) (now E)"
        by (auto simp: markUsedFor_def)
      from sh have ne: "used \<noteq> []" by auto
      let ?r = "completedEntry E (autoId E n) j used"
      from ne ws have "?r \<in> set (setLogs ws)" by (simp add: setLogs_append mk)
      moreover have "logId ?r = autoId E n" "logStatus ?r \<noteq> Some Scheduled"
        by (simp_all add: completedEntry_def)
      moreover from sh i have "Some i \<in> detailId ` set (details ?r)"
        by (force simp: completedEntry_def)
      ultimately show ?thesis using u by blast
    next
      case later
      from Cons.IH [OF ws' later] ws show ?thesis
        by (auto simp: setLogs_append)
    qed
  qed
qed

lemma new_records_preserve:
  assumes inv: "ledgerInvariant s"
    and fresh: "freshLogIds E s"
    and kinds: "\<forall>w \<in> set ws. logSetOrSheetWrite w" "\<forall>sh. SetSheet sh \<notin> set ws"
    and ids: "logId ` set (setLogs ws) \<subseteq> range (autoId E)"
    and dist: "distinct (map logId (setLogs ws))"
    and cov: "\<And>i u. UpdateSheet i u \<in> set ws \<Longrightarrow>
        \<exists>l j c t r. u = MarkUsed l j c t \<and> r \<in> set (setLogs ws) \<and> logId r = l
          \<and> logStatus r \<noteq> Some Scheduled \<and> Some i \<in> detailId ` set (details r)"
    and c: "commit ws s = Some s'"
  shows "ledgerInvariant s'"
proof -
  from fresh ids have dj: "logId ` set (setLogs ws) \<inter> logId ` set (logs s) = {}"
    by (auto simp: freshLogIds_def)
  from commit_Some [OF c] commitLogs_fresh_sets [OF kinds(1) dist dj]
  have l: "logs s' = logs s @ setLogs ws" and sh: "commitSheets ws (sheets s) = Some (sheets s')"
    by auto
  have "\<forall>y \<in> set (sheets s'). unitOk (logs s') y"
  proof (rule commitSheets_preserves [OF sh])
    show "\<forall>x \<in> set (sheets s). unitOk (logs s') x"
      using inv l by (auto simp: ledgerInvariant_iff intro: unitOk_mono)
  next
    fix sh assume "SetSheet sh \<in> set ws"
    with kinds(2) show "unitOk (logs s') sh" by simp
  next
    fix i u and x :: sheet
    assume u: "UpdateSheet i u \<in> set ws" and "unitOk (logs s') x" and i: "sheetId x = i"
    from cov [OF u] obtain l' j c t r where "u = MarkUsed l' j c t" "r \<in> set (setLogs ws)"
      "logId r = l'" "logStatus r \<noteq> Some Scheduled" "Some i \<in> detailId ` set (details r)"
      by blast
    with i l show "unitOk (logs s') (applySheetUpdate u x)"
      unfolding unitOk_iff by auto
  qed
  moreover from inv dist dj l have "distinct (map logId (logs s'))"
    by (auto simp: ledgerInvariant_iff)
  ultimately show ?thesis by (simp add: ledgerInvariant_iff)
qed

lemma useStock_preserves:
  assumes inv: "ledgerInvariant s" and app: "applicable E (UseStock jobs opts) s"
  shows "ledgerInvariant (snd (handleUseStock E jobs opts s))"
  unfolding handleUseStock_def
proof (rule runTransaction_cases [where P = ledgerInvariant, OF inv])
  fix ws s' assume b: "useStockJobs E opts 0 jobs = Inr ws" and c: "commit ws s = Some s'"
  from app have fresh: "freshLogIds E s" by simp
  then have inj: "inj (autoId E)" by (simp add: freshLogIds_def)
  from useStockJobs_ids [OF b] have ids: "logId ` set (setLogs ws) \<subseteq> range (autoId E)" by auto
  from useStockJobs_kinds [OF b]
  have k: "\<forall>w \<in> set ws. logSetOrSheetWrite w" "\<forall>sh. SetSheet sh \<notin> set ws" by auto
  show "ledgerInvariant s'"
    by (rule new_records_preserve [OF inv fresh k ids useStockJobs_distinct [OF b inj] _ c])
       (rule useStockJobs_covered [OF b])
qed


text \<open>The form behind the "use" modal: deletions and new records.\<close>

lemma modalJobs_kinds:
  "modalJobs E n jobs = Inr ws \<Longrightarrow>
   (\<forall>w \<in> set ws. logSetOrSheetWrite w) \<and> (\<forall>sh. SetSheet sh \<notin> set ws)
   \<and> (\<forall>i u. UpdateSheet i u \<notin> set ws)"
  by (induction jobs arbitrary: n ws) (auto split: if_splits sum.splits)

lemma setLogs_deletes: "setLogs (map (\<lambda>sh. DeleteSheet (sheetId sh)) used) = []"
  by (rule setLogs_sheetWrites) auto

lemma modalJobs_ids:
  "modalJobs E n jobs = Inr ws \<Longrightarrow> logId ` set (setLogs ws) \<subseteq> autoId E ` {n..}"
proof (induction jobs arbitrary: n ws)
  case Nil
  then show ?case by simp
next
  case (Cons j jobs)
  have up: "autoId E ` {Suc n..} \<subseteq> autoId E ` {n..}" by auto
  from Cons.prems obtain used ws' where
    ws': "modalJobs E (if used \<noteq> [] then Suc n else n) jobs = Inr ws'"
    and ws: "ws = map (\<lambda>sh. DeleteSheet (sheetId sh)) used
               @ (if used \<noteq> [] then [SetLog (modalEntry E (autoId E n) j used)] else [])
               @ ws'"
    by (auto split: sum.splits)
  from Cons.IH [OF ws'] up ws show ?case
    by (auto simp: setLogs_append setLogs_deletes modalEntry_def split: if_splits)
qed

lemma modalJobs_distinct:
  "modalJobs E n jobs = Inr ws \<Longrightarrow> inj (autoId E) \<Longrightarrow> distinct (map logId (setLogs ws))"
proof (induction jobs arbitrary: n ws)
  case Nil
  then show ?case by simp
next
  case (Cons j jobs)
  from Cons.prems obtain used ws' where
    ws': "modalJobs E (if used \<noteq> [] then Suc n else n) jobs = Inr ws'"
    and ws: "ws = map (\<lambda>sh. DeleteSheet (sheetId sh)) used
               @ (if used \<noteq> [] then [SetLog (modalEntry E (autoId E n) j used)] else [])
               @ ws'"
    by (auto split: sum.splits)
  have new: "autoId E n \<notin> logId ` set (setLogs ws')" if "used \<noteq> []"
  proof
    assume "autoId E n \<in> logId ` set (setLogs ws')"
    with modalJobs_ids [OF ws'] that obtain k where "Suc n \<le> k" "autoId E n = autoId E k"
      by auto
    with Cons.prems(2) show False by (auto dest: injD)
  qed
  from Cons.IH [OF ws' Cons.prems(2)] new ws show ?case
    by (auto simp: setLogs_append setLogs_deletes modalEntry_def)
qed

lemma submit_preserves:
  assumes inv: "ledgerInvariant s" and app: "applicable E (SubmitUseForm jobs) s"
  shows "ledgerInvariant (snd (handleSubmit E jobs s))"
proof -
  have "ledgerInvariant (snd (runTransaction (modalJobs E 0 jobs) s))"
  proof (rule runTransaction_cases [where P = ledgerInvariant, OF inv])
    fix ws s' assume b: "modalJobs E 0 jobs = Inr ws" and c: "commit ws s = Some s'"
    from app have fresh: "freshLogIds E s" by simp
    then have inj: "inj (autoId E)" by (simp add: freshLogIds_def)
    from modalJobs_ids [OF b] have ids: "logId ` set (setLogs ws) \<subseteq> range (autoId E)" by auto
    from modalJobs_kinds [OF b]
    have k: "\<forall>w \<in> set ws. logSetOrSheetWrite w" "\<forall>sh. SetSheet sh \<notin> set ws"
      and nu: "\<forall>i u. UpdateSheet i u \<notin> set ws" by auto
    show "ledgerInvariant s'"
      by (rule new_records_preserve [OF inv fresh k ids modalJobs_distinct [OF b inj] _ c])
         (use nu in auto)
  qed
  with inv show ?thesis by (simp add: handleSubmit_def)
qed

section \<open>Units handed to an existing record\<close>

lemma record_unique:
  "distinct (map logId ls) \<Longrightarrow> r \<in> set ls \<Longrightarrow> l \<in> set ls \<Longrightarrow> logId r = logId l \<Longrightarrow> r = l"
  by (auto simp: distinct_map dest: inj_onD)

lemma commitSheets_returns:
  "commitSheets (map (\<lambda>i. UpdateSheet (sheetId i) ReturnToStock) R) xs = Some zs \<Longrightarrow>
   zs = map (\<lambda>x. if sheetId x \<in> sheetId ` set R then applySheetUpdate ReturnToStock x else x) xs"
proof (induction R arbitrary: xs)
  case Nil
  then show ?case by simp
next
  case (Cons a R)
  let ?xs1 = "map (\<lambda>x. if sheetId x = sheetId a then applySheetUpdate ReturnToStock x else x) xs"
  from Cons.prems have "commitSheets (map (\<lambda>i. UpdateSheet (sheetId i) ReturnToStock) R) ?xs1
        = Some zs"
    by (simp split: if_splits)
  from Cons.IH [OF this] show ?case by (auto simp: comp_def)
qed

lemma reassign_preserve:
  assumes inv: "ledgerInvariant s" and l: "l \<in> set (logs s)"
    and pend: "\<And>x. x \<in> set (sheets s) \<Longrightarrow> usageLogId x = Some (logId l) \<Longrightarrow>
                 sheetId x \<in> sheetId ` set R"
    and upd: "\<And>sh. sh \<in> set M \<Longrightarrow> logStatus (applyLogUpdate U l) \<noteq> Some Scheduled
                 \<and> Some (sheetId sh) \<in> detailId ` set (details (applyLogUpdate U l))"
    and c: "commit (map (\<lambda>i. UpdateSheet (sheetId i) ReturnToStock) R
              @ map (\<lambda>sh. UpdateSheet (sheetId sh) (MarkUsed (logId l) j cu t)) M
              @ [UpdateLog (logId l) U]) s = Some s'"
  shows "ledgerInvariant s'"
proof -
  let ?A = "map (\<lambda>i. UpdateSheet (sheetId i) ReturnToStock) R"
  let ?B = "map (\<lambda>sh. UpdateSheet (sheetId sh) (MarkUsed (logId l) j cu t)) M"
  let ?C = "[UpdateLog (logId l) U]"
  let ?ls' = "map (\<lambda>r. if logId r = logId l then applyLogUpdate U r else r) (logs s)"
  from inv have dist: "distinct (map logId (logs s))" by (simp add: ledgerInvariant_iff)
  have sw: "\<forall>w \<in> set (?A @ ?B). sheetWrite w" by auto
  from commit_Some [OF c] have cl: "commitLogs ((?A @ ?B) @ ?C) (logs s) = Some (logs s')"
    and cs: "commitSheets (?A @ (?B @ ?C)) (sheets s) = Some (sheets s')" by simp_all
  have ab: "commitLogs (?A @ ?B) (logs s) = Some (logs s)"
    by (rule commitLogs_sheetWrites [OF sw])
  have "commitLogs ((?A @ ?B) @ ?C) (logs s) = commitLogs ?C (logs s)"
    by (simp only: commitLogs_append [of "?A @ ?B"] ab option.case)
  with cl have "commitLogs ?C (logs s) = Some (logs s')" by simp
  then have ls': "logs s' = ?ls'" by (simp split: if_splits)
  have d': "distinct (map logId (logs s'))"
    using dist by (simp only: ls' map_logId_update)
  have keep: "r \<in> set (logs s')" if "r \<in> set (logs s)" "logId r \<noteq> logId l" for r
    using that unfolding ls' by auto
  have new: "applyLogUpdate U l \<in> set (logs s')"
    using l unfolding ls' by auto
  from cs obtain zs where zs: "commitSheets ?A (sheets s) = Some zs"
    and ys: "commitSheets (?B @ ?C) zs = Some (sheets s')"
    by (auto simp: commitSheets_append split: option.splits)
  have z: "zs = map (\<lambda>x. if sheetId x \<in> sheetId ` set R
                         then applySheetUpdate ReturnToStock x else x) (sheets s)"
    by (rule commitSheets_returns [OF zs])
  have okz: "\<forall>x \<in> set zs. unitOk (logs s') x"
  proof
    fix y assume "y \<in> set zs"
    with z obtain x where x: "x \<in> set (sheets s)"
      and y: "y = (if sheetId x \<in> sheetId ` set R then applySheetUpdate ReturnToStock x else x)"
      by auto
    show "unitOk (logs s') y"
    proof (cases "sheetId x \<in> sheetId ` set R")
      case True
      with y show ?thesis by (simp add: unitOk_def)
    next
      case False
      with y have yx: "y = x" by simp
      from inv x have ok: "unitOk (logs s) x" by (simp add: ledgerInvariant_iff)
      show ?thesis
        unfolding yx unitOk_iff
      proof (intro allI impI)
        fix k assume k: "usageLogId x = Some k"
        with ok obtain r where r: "status x = Used" "r \<in> set (logs s)" "logId r = k"
          "logStatus r \<noteq> Some Scheduled" "Some (sheetId x) \<in> detailId ` set (details r)"
          unfolding unitOk_iff by blast
        from pend [OF x] False k have "k \<noteq> logId l" by auto
        with r keep [of r] show "status x = Used \<and> (\<exists>r \<in> set (logs s'). logId r = k
            \<and> logStatus r \<noteq> Some Scheduled \<and> Some (sheetId x) \<in> detailId ` set (details r))"
          by auto
      qed
    qed
  qed
  have "\<forall>y \<in> set (sheets s'). unitOk (logs s') y"
  proof (rule commitSheets_preserves [OF ys okz])
    fix sh assume "SetSheet sh \<in> set (?B @ ?C)"
    then show "unitOk (logs s') sh" by auto
  next
    fix i u and x :: sheet
    assume u: "UpdateSheet i u \<in> set (?B @ ?C)" and "unitOk (logs s') x" and i: "sheetId x = i"
    from u obtain sh where sh: "sh \<in> set M" and ii: "i = sheetId sh"
      and uu: "u = MarkUsed (logId l) j cu t" by auto
    from upd [OF sh] have a: "logStatus (applyLogUpdate U l) \<noteq> Some Scheduled"
      "Some (sheetId sh) \<in> detailId ` set (details (applyLogUpdate U l))" by simp_all
    from ii i have e: "sheetId x = sheetId sh" by simp
    have ex: "\<exists>r \<in> set (logs s'). logId r = logId l \<and> logStatus r \<noteq> Some Scheduled
          \<and> Some (sheetId x) \<in> detailId ` set (details r)"
      using new a logId_applyLogUpdate [of U l] unfolding e by blast
    show "unitOk (logs s') (applySheetUpdate u x)"
      unfolding unitOk_iff uu using ex by simp
  qed
  with d' show ?thesis by (simp add: ledgerInvariant_iff)
qed

lemma scheduled_unreferenced:
  assumes inv: "ledgerInvariant s" and l: "l \<in> set (logs s)" and st: "logStatus l = Some Scheduled"
    and x: "x \<in> set (sheets s)" and u: "usageLogId x = Some (logId l)"
  shows False
proof -
  from inv x have "unitOk (logs s) x" by (simp add: ledgerInvariant_iff)
  with u obtain r where r: "r \<in> set (logs s)" "logId r = logId l" "logStatus r \<noteq> Some Scheduled"
    unfolding unitOk_iff by blast
  from inv have "distinct (map logId (logs s))" by (simp add: ledgerInvariant_iff)
  from record_unique [OF this r(1) l r(2)] r(3) st show False by simp
qed

lemma fulfil_preserves:
  assumes inv: "ledgerInvariant s" and app: "applicable E (FulfillScheduledLog l) s"
  shows "ledgerInvariant (snd (handleFulfillScheduledLog E l s))"
  unfolding handleFulfillScheduledLog_def
proof (rule runTransaction_cases [where P = ledgerInvariant, OF inv])
  fix ws s' assume b: "fulfilBody E l = Inr ws" and c: "commit ws s = Some s'"
  from app have l: "l \<in> set (logs s)" and st: "logStatus l = Some Scheduled" by simp_all
  from b obtain M where ws: "ws = map (\<lambda>i. UpdateSheet (sheetId i) ReturnToStock) []
       @ map (\<lambda>sh. UpdateSheet (sheetId sh) (MarkUsed (logId l) (logJob l) (logCustomer l) (now E))) M
       @ [UpdateLog (logId l) (Fulfil (map Snapshot M) (now E))]"
    by (auto simp: fulfilBody_def split: sum.splits)
  from c ws have c': "commit (map (\<lambda>i. UpdateSheet (sheetId i) ReturnToStock) []
       @ map (\<lambda>sh. UpdateSheet (sheetId sh) (MarkUsed (logId l) (logJob l) (logCustomer l) (now E))) M
       @ [UpdateLog (logId l) (Fulfil (map Snapshot M) (now E))]) s = Some s'" by simp
  show "ledgerInvariant s'"
  proof (rule reassign_preserve [OF inv l _ _ c'])
    fix x assume "x \<in> set (sheets s)" "usageLogId x = Some (logId l)"
    from scheduled_unreferenced [OF inv l st this] show "sheetId x \<in> sheetId ` set []" ..
  next
    fix sh assume "sh \<in> set M"
    then show "logStatus (applyLogUpdate (Fulfil (map Snapshot M) (now E)) l) \<noteq> Some Scheduled
       \<and> Some (sheetId sh) \<in> detailId ` set (details (applyLogUpdate (Fulfil (map Snapshot M) (now E)) l))"
      by force
  qed
qed

lemma edit_preserves:
  assumes inv: "ledgerInvariant s" and app: "applicable E (EditOutgoingLog l f) s"
  shows "ledgerInvariant (snd (handleEditOutgoingLog E l f s))"
proof (cases "logStatus l = Some Scheduled")
  case True
  from app have l: "l \<in> set (logs s)" by simp
  have "ledgerInvariant (snd (runTransaction (Inr [editScheduledWrite E l f d]) s))" for d
  proof (rule runTransaction_cases [where P = ledgerInvariant, OF inv])
    fix ws s' assume b: "Inr [editScheduledWrite E l f d] = (Inr ws :: error + write_op list)"
      and c: "commit ws s = Some s'"
    let ?U = "EditScheduled (jobLabel (formJobName f)) (formCustomer f) d
          (scheduledDetails E (formItems f)) (- totalItems E (formItems f))"
    from b have ws: "ws = map (\<lambda>i. UpdateSheet (sheetId i) ReturnToStock) []
       @ map (\<lambda>sh. UpdateSheet (sheetId sh) (MarkUsed (logId l) [] [] 0)) []
       @ [UpdateLog (logId l) ?U]"
      by (auto simp: editScheduledWrite_def)
    from c ws have c': "commit (map (\<lambda>i. UpdateSheet (sheetId i) ReturnToStock) []
       @ map (\<lambda>sh. UpdateSheet (sheetId sh) (MarkUsed (logId l) [] [] 0)) []
       @ [UpdateLog (logId l) ?U]) s = Some s'" by simp
    show "ledgerInvariant s'"
    proof (rule reassign_preserve [OF inv l _ _ c'])
      fix x assume "x \<in> set (sheets s)" "usageLogId x = Some (logId l)"
      from scheduled_unreferenced [OF inv l True this] show "sheetId x \<in> sheetId ` set []" ..
    next
      fix sh :: sheet assume "sh \<in> set []"
      then show "logStatus (applyLogUpdate ?U l) \<noteq> Some Scheduled
         \<and> Some (sheetId sh) \<in> detailId ` set (details (applyLogUpdate ?U l))"
        by simp
    qed
  qed
  with True inv show ?thesis
    by (simp add: handleEditOutgoingLog_def commitBatch_def split: option.splits)
next
  case False
  from app have l: "l \<in> set (logs s)"
    and known: "sheetId ` set (sheets s) \<subseteq> sheetId ` set (inventory E)" by simp_all
  from inv have dist: "distinct (map logId (logs s))" by (simp add: ledgerInvariant_iff)
  have "ledgerInvariant (snd (runTransaction (editCompletedBody E l f) s))"
  proof (rule runTransaction_cases [where P = ledgerInvariant, OF inv])
    fix ws s' assume b: "editCompletedBody E l f = Inr ws" and c: "commit ws s = Some s'"
    from b obtain M where ws: "ws = map (\<lambda>i. UpdateSheet (sheetId i) ReturnToStock) (itemsToReturn E l)
       @ map (\<lambda>sh. UpdateSheet (sheetId sh)
               (MarkUsed (logId l) (formJobName f) (formCustomer f) (now E))) M
       @ [UpdateLog (logId l) (EditCompleted (formJobName f) (formCustomer f)
                                  (map Snapshot M) (- int (length M)))]"
      by (auto simp: editCompletedBody_def split: sum.splits option.splits)
    from c ws have c': "commit (map (\<lambda>i. UpdateSheet (sheetId i) ReturnToStock) (itemsToReturn E l)
       @ map (\<lambda>sh. UpdateSheet (sheetId sh)
               (MarkUsed (logId l) (formJobName f) (formCustomer f) (now E))) M
       @ [UpdateLog (logId l) (EditCompleted (formJobName f) (formCustomer f)
                                  (map Snapshot M) (- int (length M)))]) s = Some s'" by simp
    show "ledgerInvariant s'"
    proof (rule reassign_preserve [OF inv l _ _ c'])
      fix x assume x: "x \<in> set (sheets s)" and u: "usageLogId x = Some (logId l)"
      from inv x have "unitOk (logs s) x" by (simp add: ledgerInvariant_iff)
      with u obtain r where r: "r \<in> set (logs s)" "logId r = logId l"
        "Some (sheetId x) \<in> detailId ` set (details r)"
        unfolding unitOk_iff by blast
      from record_unique [OF dist r(1) l r(2)] r(3)
      have d: "Some (sheetId x) \<in> set (originalItemIds l)" by (simp add: originalItemIds_def)
      from known x obtain i where i: "i \<in> set (inventory E)" "sheetId i = sheetId x" by force
      with d have "i \<in> set (itemsToReturn E l)" by (simp add: itemsToReturn_def)
      with i(2) show "sheetId x \<in> sheetId ` set (itemsToReturn E l)" by (metis imageI)
    next
      fix sh assume "sh \<in> set M"
      with False show "logStatus (applyLogUpdate (EditCompleted (formJobName f) (formCustomer f)
                                  (map Snapshot M) (- int (length M))) l) \<noteq> Some Scheduled
         \<and> Some (sheetId sh) \<in> detailId ` set (details (applyLogUpdate
               (EditCompleted (formJobName f) (formCustomer f)
                                  (map Snapshot M) (- int (length M))) l))"
        by force
    qed
  qed
  with False show ?thesis by (simp add: handleEditOutgoingLog_def)
qed


section \<open>The invariant of the ledger\<close>

lemma ledgerInvariant_empty: "ledgerInvariant \<lparr>sheets = [], logs = []\<rparr>"
  by (simp add: ledgerInvariant_def)

text \<open>
  C5, as stated, fails after a record deletion: in a store where two units are Used by the
  Completed record \<open>L1\<close> and appear in its details, deleting \<open>L1\<close> succeeds and
  leaves both units Used with usageLogId \<open>L1\<close>, which identifies no record any more.
\<close>

theorem C5_delete_record_counterexample:
  "ledgerInvariant editStore \<and> unitsLinked editStore
   \<and> fst (perform (exampleEnv editSheets) (DeleteRecord ''L1'') editStore) = None
   \<and> \<not> unitsLinked (snd (perform (exampleEnv editSheets) (DeleteRecord ''L1'') editStore))"
  by (simp add: ledgerInvariant_def unitsLinked_def unitOk_def linked_def handleDeleteLog_def
      commitBatch_def runTransaction_def commit_def example_defs)

text \<open>
  C5, amended.  From a store that satisfies the invariant (record ids are unique; a unit
  with a usageLogId is Used and appears in the details of the record with that id, which is
  not Scheduled), every operation whose assumptions hold leaves a store that satisfies it
  again, whether the operation succeeds or fails; in such a store every unit has a usageLogId
  exactly when it is Used and appears in the details of the existing record with that id.
  The assumptions: new record ids for a use; a stored, Scheduled record for fulfilment; a
  stored record and an inventory array that knows every stored unit for an edit; units still
  Ordered for a receipt; no unit referencing the record for a record deletion.
\<close>

theorem C5_link_preserved:
  assumes "ledgerInvariant s" and "applicable E op s"
  shows "ledgerInvariant (snd (perform E op s)) \<and> unitsLinked (snd (perform E op s))"
proof -
  have "ledgerInvariant (snd (perform E op s))"
  proof (cases op)
    case (UseStock jobs opts)
    with assms useStock_preserves [of s E jobs opts] show ?thesis by simp
  next
    case (SubmitUseForm jobs)
    with assms submit_preserves [of s E jobs] show ?thesis by simp
  next
    case (FulfillScheduledLog l)
    with assms fulfil_preserves [of s E l] show ?thesis by simp
  next
    case (EditOutgoingLog l f)
    with assms edit_preserves [of s E l f] show ?thesis by simp
  next
    case (AddOrEditOrder jobs og)
    with assms addOrEditOrder_preserves [of s E jobs og] show ?thesis by simp
  next
    case (ReceiveOrder g)
    with assms receiveOrder_preserves [of s E g] show ?thesis by simp
  next
    case (DeleteInventoryGroup og)
    with assms deleteInventoryGroup_preserves [of s og] show ?thesis by simp
  next
    case (ManualStockAdjust mt len n)
    with assms stockEdit_preserves [of s E mt len n] show ?thesis by simp
  next
    case (DeleteRecord i)
    with assms deleteLog_preserves [of s E i] show ?thesis by simp
  qed
  then show ?thesis by (simp add: ledgerInvariant_unitsLinked)
qed

theorem C5_link_preserved_witness:
  "ledgerInvariant \<lparr>sheets = threeOnHand, logs = []\<rparr>
   \<and> applicable (countingEnv threeOnHand)
        (UseStock [exampleJob ''J1'' [exampleItem ''A16GA'' 2]] immediateOpts)
        \<lparr>sheets = threeOnHand, logs = []\<rparr>
   \<and> unitsLinked (snd (perform (countingEnv threeOnHand)
        (UseStock [exampleJob ''J1'' [exampleItem ''A16GA'' 2]] immediateOpts)
        \<lparr>sheets = threeOnHand, logs = []\<rparr>))
   \<and> map usageLogId (sheets (snd (perform (countingEnv threeOnHand)
        (UseStock [exampleJob ''J1'' [exampleItem ''A16GA'' 2]] immediateOpts)
        \<lparr>sheets = threeOnHand, logs = []\<rparr>))) = [Some ''n'', Some ''n'', None]"
proof -
  let ?s = "\<lparr>sheets = threeOnHand, logs = []\<rparr>"
  let ?op = "UseStock [exampleJob ''J1'' [exampleItem ''A16GA'' 2]] immediateOpts"
  have h1: "ledgerInvariant ?s"
    by (simp add: ledgerInvariant_def unitOk_def threeOnHand_def exampleSheet_def)
  have h2: "applicable (countingEnv threeOnHand) ?op ?s"
    by (simp add: freshLogIds_def example_autoId_inj)
  have e: "map usageLogId (sheets (snd (perform (countingEnv threeOnHand) ?op ?s)))
      = [Some ''n'', Some ''n'', None]"
    by (simp add: handler_defs example_defs countingEnv_def threeOnHand_def)
  from C5_link_preserved [OF h1 h2] h1 h2 e show ?thesis by blast
qed

section \<open>What an immediate use does to the units it selects\<close>

lemma useRequirement_onHand:
  "useRequirement E r = Inr used \<Longrightarrow> sh \<in> set used \<Longrightarrow>
   sh \<in> set (inventory E) \<and> status sh = OnHand"
proof -
  assume a: "useRequirement E r = Inr used" and m: "sh \<in> set used"
  obtain mt len q where r: "r = (mt, len, q)" by (cases r) auto
  from a r have "used = slice0 q (selectFifo (inventory E) (matches mt len))"
    by (simp add: useRequirement_def Let_def split: if_splits)
  with m have "sh \<in> set (selectFifo (inventory E) (matches mt len))"
    by (auto simp: slice0_def split: if_splits dest: in_set_takeD)
  then show ?thesis by (simp add: selectFifo_def set_sortBy matches_def)
qed

lemma collect_member:
  "collect f rs = Inr xs \<Longrightarrow> x \<in> set xs \<Longrightarrow> \<exists>r \<in> set rs. \<exists>ys. f r = Inr ys \<and> x \<in> set ys"
proof (induction rs arbitrary: xs)
  case Nil
  then show ?case by simp
next
  case (Cons r rs)
  from Cons.prems(1) obtain ys zs where ys: "f r = Inr ys" and zs: "collect f rs = Inr zs"
    and xs: "xs = ys @ zs"
    by (auto split: sum.splits)
  from Cons.prems(2) xs consider "x \<in> set ys" | "x \<in> set zs" by auto
  then show ?case
  proof cases
    case 1
    with ys show ?thesis by auto
  next
    case 2
    from Cons.IH [OF zs 2] show ?thesis by auto
  qed
qed

lemma immediate_updates:
  "useStockJobs E opts n jobs = Inr ws \<Longrightarrow> \<not> isScheduled opts \<Longrightarrow>
   UpdateSheet i u \<in> set ws \<Longrightarrow>
   \<exists>r sh. SetLog r \<in> set ws \<and> logStatus r = Some Completed
      \<and> u = MarkUsed (logId r) (logJob r) (logCustomer r) (now E)
      \<and> Snapshot sh \<in> set (details r) \<and> sheetId sh = i
      \<and> sh \<in> set (inventory E) \<and> status sh = OnHand
      \<and> qty r = - int (length (details r))"
proof (induction jobs arbitrary: n ws)
  case Nil
  then show ?case by simp
next
  case (Cons j jobs)
  from Cons.prems(1,2) obtain used ws' where
    used: "collect (useRequirement E) (requirements E (items j)) = Inr used"
    and ws': "useStockJobs E opts (Suc n) jobs = Inr ws'"
    and ws: "ws = map (markUsedFor E (autoId E n) j) used
               @ (if used \<noteq> [] then [SetLog (completedEntry E (autoId E n) j used)] else [])
               @ ws'"
    by (auto split: sum.splits)
  from ws Cons.prems(3) consider
    (here) "UpdateSheet i u \<in> set (map (markUsedFor E (autoId E n) j) used)"
    | (later) "UpdateSheet i u \<in> set ws'"
    by (auto split: if_splits)
  then show ?case
  proof cases
    case here
    then obtain sh where sh: "sh \<in> set used" and i: "i = sheetId sh"
      and u: "u = MarkUsed (autoId E n) (jobLabel (jobName j)) (customer j) (now E)"
      by (auto simp: markUsedFor_def)
    from collect_member [OF used sh] obtain r ys where "useRequirement E r = Inr ys" "sh \<in> set ys"
      by blast
    from useRequirement_onHand [OF this] have on: "sh \<in> set (inventory E)" "status sh = OnHand"
      by simp_all
    let ?r = "completedEntry E (autoId E n) j used"
    from sh have "used \<noteq> []" by auto
    with ws have "SetLog ?r \<in> set ws" by simp
    moreover from sh have "Snapshot sh \<in> set (details ?r)" by (simp add: completedEntry_def)
    ultimately show ?thesis
      using u i on by (intro exI [of _ ?r] exI [of _ sh]) (simp add: completedEntry_def)
  next
    case later
    from Cons.IH [OF ws' Cons.prems(2) later] ws show ?thesis by auto
  qed
qed

lemma commitSheets_updates_keep_ids:
  "commitSheets ws xs = Some ys \<Longrightarrow> \<forall>sh. SetSheet sh \<notin> set ws \<Longrightarrow> \<forall>i. DeleteSheet i \<notin> set ws \<Longrightarrow>
   map sheetId ys = map sheetId xs"
proof (induction ws arbitrary: xs)
  case Nil
  then show ?case by simp
next
  case (Cons w ws)
  from Cons.prems(1) obtain zs where zs: "applyToSheets w xs = Some zs"
    and rest: "commitSheets ws zs = Some ys"
    by (auto split: option.splits)
  from Cons.prems(2,3) zs have "map sheetId zs = map sheetId xs"
    by (cases w) (auto simp: map_sheetId_update split: if_splits)
  with Cons.IH [OF rest] Cons.prems(2,3) show ?case by simp
qed

lemma useStockJobs_no_deletes:
  "useStockJobs E opts n jobs = Inr ws \<Longrightarrow> \<forall>i. DeleteSheet i \<notin> set ws"
  by (induction jobs arbitrary: n ws)
     (auto split: if_splits sum.splits option.splits simp: markUsedFor_def)

text \<open>
  \<^verbatim>\<open>handleUseStock\<close>, immediate and successful: no unit is deleted or created, and every
  unit the batch has selected (a unit on hand in the inventory array) ends up Used, with the
  back-references to a record that the same call has written as Completed, with the unit's
  snapshot among its details and qty the negative of their number.
\<close>

lemma useStock_marks_selected_units:
  assumes im: "\<not> isScheduled opts"
    and b: "useStockJobs E opts 0 jobs = Inr ws"
    and c: "commit ws s = Some s'"
  shows "map sheetId (sheets s') = map sheetId (sheets s)"
    and "UpdateSheet i u \<in> set ws \<Longrightarrow> y \<in> set (sheets s') \<Longrightarrow> sheetId y = i \<Longrightarrow>
         status y = Used
         \<and> (\<exists>r sh. SetLog r \<in> set ws \<and> logStatus r = Some Completed
               \<and> usageLogId y = Some (logId r) \<and> jobNameUsed y = Some (logJob r)
               \<and> customerUsed y = Some (logCustomer r) \<and> usedAt y = Some (now E)
               \<and> Snapshot sh \<in> set (details r) \<and> sheetId sh = i
               \<and> sh \<in> set (inventory E) \<and> status sh = OnHand
               \<and> qty r = - int (length (details r)))"
proof -
  from commit_Some [OF c] have cs: "commitSheets ws (sheets s) = Some (sheets s')" by simp
  from useStockJobs_kinds [OF b] useStockJobs_no_deletes [OF b]
  show "map sheetId (sheets s') = map sheetId (sheets s)"
    by (intro commitSheets_updates_keep_ids [OF cs]) auto
next
  assume u: "UpdateSheet i u \<in> set ws" and y: "y \<in> set (sheets s')" and i: "sheetId y = i"
  from commit_Some [OF c] have cs: "commitSheets ws (sheets s) = Some (sheets s')" by simp
  let ?Q = "\<lambda>y. sheetId y = i \<longrightarrow> status y = Used
         \<and> (\<exists>r sh. SetLog r \<in> set ws \<and> logStatus r = Some Completed
               \<and> usageLogId y = Some (logId r) \<and> jobNameUsed y = Some (logJob r)
               \<and> customerUsed y = Some (logCustomer r) \<and> usedAt y = Some (now E)
               \<and> Snapshot sh \<in> set (details r) \<and> sheetId sh = i
               \<and> sh \<in> set (inventory E) \<and> status sh = OnHand
               \<and> qty r = - int (length (details r)))"
  have step: "?Q (applySheetUpdate u' x)" if "UpdateSheet i' u' \<in> set ws" "?Q x" "sheetId x = i'"
    for i' u' and x :: sheet
  proof (cases "i' = i")
    case True
    from immediate_updates [OF b im that(1)] obtain r sh where
      "SetLog r \<in> set ws" "logStatus r = Some Completed"
      "u' = MarkUsed (logId r) (logJob r) (logCustomer r) (now E)"
      "Snapshot sh \<in> set (details r)" "sheetId sh = i'"
      "sh \<in> set (inventory E)" "status sh = OnHand" "qty r = - int (length (details r))"
      by blast
    with True show ?thesis by (intro impI conjI exI [of _ r] exI [of _ sh]) simp_all
  next
    case False
    with that(3) show ?thesis by simp
  qed
  from split_list [OF u] obtain ws1 ws2 where ws: "ws = ws1 @ UpdateSheet i u # ws2" by blast
  from cs ws obtain zs1 where zs1: "commitSheets ws1 (sheets s) = Some zs1"
    and r1: "commitSheets (UpdateSheet i u # ws2) zs1 = Some (sheets s')"
    by (auto simp: commitSheets_append split: option.splits)
  from r1 obtain zs2 where zs2: "applyToSheets (UpdateSheet i u) zs1 = Some zs2"
    and r2: "commitSheets ws2 zs2 = Some (sheets s')"
    by (auto split: option.splits)
  from zs2 have z2: "zs2 = map (\<lambda>x. if sheetId x = i then applySheetUpdate u x else x) zs1"
    by (simp split: if_splits)
  have q2: "\<forall>z \<in> set zs2. ?Q z"
  proof
    fix z assume "z \<in> set zs2"
    then have "z \<in> (\<lambda>x. if sheetId x = i then applySheetUpdate u x else x) ` set zs1"
      unfolding z2 by (simp only: set_map)
    then obtain x where x: "z = (if sheetId x = i then applySheetUpdate u x else x)" by blast
    show "?Q z"
    proof (cases "sheetId x = i")
      case True
      from immediate_updates [OF b im u] obtain r sh where
        "SetLog r \<in> set ws" "logStatus r = Some Completed"
        "u = MarkUsed (logId r) (logJob r) (logCustomer r) (now E)"
        "Snapshot sh \<in> set (details r)" "sheetId sh = i"
        "sh \<in> set (inventory E)" "status sh = OnHand" "qty r = - int (length (details r))"
        by blast
      with True x show ?thesis by (intro impI conjI exI [of _ r] exI [of _ sh]) simp_all
    next
      case False
      with x show ?thesis by simp
    qed
  qed
  have "\<forall>z \<in> set (sheets s'). ?Q z"
  proof (rule commitSheets_preserves [OF r2 q2])
    fix sh assume "SetSheet sh \<in> set ws2"
    with ws useStockJobs_kinds [OF b] show "?Q sh" by auto
  next
    fix i' u' and x :: sheet
    assume "UpdateSheet i' u' \<in> set ws2" and q: "?Q x" and e: "sheetId x = i'"
    with ws have "UpdateSheet i' u' \<in> set ws" by simp
    from step [OF this q e] show "?Q (applySheetUpdate u' x)" .
  qed
  with y i show "status y = Used
         \<and> (\<exists>r sh. SetLog r \<in> set ws \<and> logStatus r = Some Completed
               \<and> usageLogId y = Some (logId r) \<and> jobNameUsed y = Some (logJob r)
               \<and> customerUsed y = Some (logCustomer r) \<and> usedAt y = Some (now E)
               \<and> Snapshot sh \<in> set (details r) \<and> sheetId sh = i
               \<and> sh \<in> set (inventory E) \<and> status sh = OnHand
               \<and> qty r = - int (length (details r)))"
    by blast
qed

end
